theory Spec2Isabelle
  imports Complex_Main
begin

section \<open>Strings\<close>

text \<open>
  A JavaScript string is modelled by the list of its characters. The embedding covers
  the ASCII range: case mapping touches the letters \<open>a\<close> to \<open>z\<close> only, white space
  is TAB, LF, VT, FF, CR and SPACE (the ASCII part of what \<open>trim\<close> and \<open>\s\<close> accept),
  and every other character is left alone.
\<close>

definition lower_letters :: string where
  "lower_letters = ''abcdefghijklmnopqrstuvwxyz''"

definition upper_letters :: string where
  "upper_letters = ''ABCDEFGHIJKLMNOPQRSTUVWXYZ''"

definition digits :: string where
  "digits = ''0123456789''"

definition isSpace :: "char \<Rightarrow> bool" where
  "isSpace c = (c \<in> set [CHR 0x09, CHR 0x0A, CHR 0x0B, CHR 0x0C, CHR 0x0D, CHR '' ''])"

definition isDigit :: "char \<Rightarrow> bool" where
  "isDigit c = (c \<in> set digits)"

definition isUpperAZ :: "char \<Rightarrow> bool" where
  "isUpperAZ c = (c \<in> set upper_letters)"

definition isLowerAZ :: "char \<Rightarrow> bool" where
  "isLowerAZ c = (c \<in> set lower_letters)"

definition isWordChar :: "char \<Rightarrow> bool" where
  "isWordChar c = (isUpperAZ c \<or> isLowerAZ c \<or> isDigit c \<or> c = CHR ''_'')"

definition toUpperChar :: "char \<Rightarrow> char" where
  "toUpperChar c =
     (case map_of (zip lower_letters upper_letters) c of Some u \<Rightarrow> u | None \<Rightarrow> c)"

definition toUpperCase :: "string \<Rightarrow> string" where
  "toUpperCase s = map toUpperChar s"

definition trim :: "string \<Rightarrow> string" where
  "trim s = rev (dropWhile isSpace (rev (dropWhile isSpace s)))"

definition startsWith :: "string \<Rightarrow> string \<Rightarrow> bool" where
  "startsWith s p = (take (length p) s = p)"

fun includesStr :: "string \<Rightarrow> string \<Rightarrow> bool" where
  "includesStr [] p = (p = [])"
| "includesStr (c # cs) p = (startsWith (c # cs) p \<or> includesStr cs p)"

section \<open>Regular expressions of the source\<close>

text \<open>
  The patterns of the source are sequences of four kinds of item: a literal, a character
  class repeated between a lower and an optional upper bound, the word boundary \<open>\b\<close> and
  the end anchor \<open>$\<close>. A repetition takes as many characters as it can. In every pattern of
  the source the item after a repetition cannot start with a character of the repeated
  class, so giving characters back never produces a match and the greedy reading is the
  JavaScript one. The flag \<open>i\<close> compares literals after upper-casing.
\<close>

datatype atom =
    Lit string
  | Rep "char \<Rightarrow> bool" nat "nat option"
  | WordB
  | End

record regex =
  atoms :: "atom list"
  ignoreCase :: bool

definition litEq :: "bool \<Rightarrow> string \<Rightarrow> string \<Rightarrow> bool" where
  "litEq ci s l = (if ci then toUpperCase s = toUpperCase l else s = l)"

definition lastChar :: "char option \<Rightarrow> string \<Rightarrow> char option" where
  "lastChar prev s = (if s = [] then prev else Some (last s))"

definition wordAt :: "char option \<Rightarrow> bool" where
  "wordAt c = (case c of None \<Rightarrow> False | Some x \<Rightarrow> isWordChar x)"

definition firstChar :: "string \<Rightarrow> char option" where
  "firstChar s = (case s of [] \<Rightarrow> None | c # _ \<Rightarrow> Some c)"

definition greedy :: "(char \<Rightarrow> bool) \<Rightarrow> nat option \<Rightarrow> string \<Rightarrow> nat" where
  "greedy cls hi s =
     (let k = length (takeWhile cls s)
      in case hi of None \<Rightarrow> k | Some h \<Rightarrow> min h k)"

fun matchAtoms :: "bool \<Rightarrow> atom list \<Rightarrow> char option \<Rightarrow> string \<Rightarrow> nat option" where
  "matchAtoms ci [] prev s = Some 0"
| "matchAtoms ci (Lit l # as) prev s =
     (if length l \<le> length s \<and> litEq ci (take (length l) s) l
      then map_option (\<lambda>n. length l + n)
             (matchAtoms ci as (lastChar prev (take (length l) s)) (drop (length l) s))
      else None)"
| "matchAtoms ci (Rep cls lo hi # as) prev s =
     (let k = greedy cls hi s
      in if k < lo then None
         else map_option (\<lambda>n. k + n)
                (matchAtoms ci as (lastChar prev (take k s)) (drop k s)))"
| "matchAtoms ci (WordB # as) prev s =
     (if wordAt prev \<noteq> wordAt (firstChar s) then matchAtoms ci as prev s else None)"
| "matchAtoms ci (End # as) prev s =
     (if s = [] then matchAtoms ci as prev s else None)"

definition matchHere :: "regex \<Rightarrow> char option \<Rightarrow> string \<Rightarrow> nat option" where
  "matchHere re prev s = matchAtoms (ignoreCase re) (atoms re) prev s"

text \<open>The leftmost match: its start and its length.\<close>

fun search :: "regex \<Rightarrow> char option \<Rightarrow> string \<Rightarrow> (nat \<times> nat) option" where
  "search re prev [] = map_option (\<lambda>n. (0, n)) (matchHere re prev [])"
| "search re prev (c # cs) =
     (case matchHere re prev (c # cs) of
        Some n \<Rightarrow> Some (0, n)
      | None \<Rightarrow> map_option (\<lambda>(i, n). (Suc i, n)) (search re (Some c) cs))"

definition test :: "regex \<Rightarrow> string \<Rightarrow> bool" where
  "test re s = (search re None s \<noteq> None)"

text \<open>
  The replacement text of \<open>String.prototype.replace\<close>: \<open>$$\<close> is a dollar sign, \<open>$&\<close> the
  matched text, \<open>$`\<close> the text before the match and \<open>$'\<close> the text after it. The patterns
  of the source have no capture group, so \<open>$1\<close> and the like stand for themselves.
\<close>

fun expand :: "string \<Rightarrow> string \<Rightarrow> string \<Rightarrow> string \<Rightarrow> string" where
  "expand [] m b a = []"
| "expand [c] m b a = [c]"
| "expand (c # d # r) m b a =
     (if c = CHR ''$'' then
        (if d = CHR ''$'' then CHR ''$'' # expand r m b a
         else if d = CHR ''&'' then m @ expand r m b a
         else if d = CHR 0x60 then b @ expand r m b a
         else if d = CHR 0x27 then a @ expand r m b a
         else c # expand (d # r) m b a)
      else c # expand (d # r) m b a)"

text \<open>\<open>s.replace(re, repl)\<close> for a pattern without the flag \<open>g\<close>: the first match only.\<close>

definition replaceFirst :: "regex \<Rightarrow> string \<Rightarrow> string \<Rightarrow> string" where
  "replaceFirst re repl s =
     (case search re None s of
        None \<Rightarrow> s
      | Some (i, n) \<Rightarrow>
          take i s @ expand repl (take n (drop i s)) (take i s) (drop (i + n) s)
            @ drop (i + n) s)"

text \<open>
  \<open>s.replace(re, repl)\<close> for a pattern with the flag \<open>g\<close>: every match, left to right,
  the scan resuming after each match. \<open>seen\<close> is the text already scanned. After an
  empty match the scan copies one character and moves on.
\<close>

function replaceFrom :: "regex \<Rightarrow> string \<Rightarrow> string \<Rightarrow> string \<Rightarrow> string" where
  "replaceFrom re repl seen [] =
     (case matchHere re (lastChar None seen) [] of
        None \<Rightarrow> []
      | Some n \<Rightarrow> expand repl [] seen [])"
| "replaceFrom re repl seen (c # cs) =
     (case matchHere re (lastChar None seen) (c # cs) of
        None \<Rightarrow> c # replaceFrom re repl (seen @ [c]) cs
      | Some 0 \<Rightarrow> expand repl [] seen (c # cs) @ c # replaceFrom re repl (seen @ [c]) cs
      | Some (Suc n) \<Rightarrow>
          expand repl (c # take n cs) seen (drop n cs)
            @ replaceFrom re repl (seen @ c # take n cs) (drop n cs))"
  by pat_completeness auto
termination
  by (relation "measure (\<lambda>(re, repl, seen, s). length s)") auto

definition replaceAll :: "regex \<Rightarrow> string \<Rightarrow> string \<Rightarrow> string" where
  "replaceAll re repl s = replaceFrom re repl [] s"

section \<open>Merchant normalisation\<close>

definition MERCHANT_PREFIXES :: "string list" where
  "MERCHANT_PREFIXES =
     [''SQ *'', ''SQU*'', ''SQ*'',
      ''TST*'', ''TOAST*'',
      ''PP*'', ''PAYPAL *'',
      ''AMZN '', ''AMAZON.COM*'', ''AMZ*'',
      ''GOOGLE *'', ''GOOGLE*'',
      ''APPLE.COM/'', ''APPLE *'',
      ''SP '', ''SP*'',
      ''CKE*'', ''CHK*'',
      ''POS '',
      ''DEBIT '',
      ''PURCHASE '',
      ''ACH '',
      ''CHECKCARD '',
      ''RECURRING '']"

text \<open>
  Each entry of \<open>MERCHANT_SUFFIXES\<close> as the source compiles it:
  \<open>new RegExp(suffix + '$', 'i')\<close>. Under the flag \<open>i\<close> the class \<open>[A-Z]\<close> accepts both
  cases.
\<close>

definition anyCaseAZ :: "char \<Rightarrow> bool" where
  "anyCaseAZ c = isUpperAZ (toUpperChar c)"

definition suffixRegex :: "atom list \<Rightarrow> regex" where
  "suffixRegex as = \<lparr>atoms = as @ [End], ignoreCase = True\<rparr>"

definition MERCHANT_SUFFIXES :: "regex list" where
  "MERCHANT_SUFFIXES =
     [suffixRegex [Lit '' LLC''], suffixRegex [Lit '' INC''], suffixRegex [Lit '' CORP''],
      suffixRegex [Lit '' CO''], suffixRegex [Lit '' LTD''],
      suffixRegex [Lit '' #'', Rep isDigit 1 None],
      suffixRegex [Lit '' '', Rep isDigit 3 None],
      suffixRegex [Lit '' '', Rep anyCaseAZ 2 (Some 2), Lit '' '', Rep isDigit 5 (Some 5)],
      suffixRegex [Lit '' '', Rep isDigit 2 (Some 2), Lit ''/'', Rep isDigit 2 (Some 2)]]"

text \<open>\<open>/\s+/g\<close>, \<open>/\s+\d{4,}$/\<close> and \<open>/\s+[A-Z]{2,}\s+[A-Z]{2}$/\<close>.\<close>

definition whitespaceRun :: regex where
  "whitespaceRun = \<lparr>atoms = [Rep isSpace 1 None], ignoreCase = False\<rparr>"

definition trailingId :: regex where
  "trailingId = \<lparr>atoms = [Rep isSpace 1 None, Rep isDigit 4 None, End], ignoreCase = False\<rparr>"

definition cityState :: regex where
  "cityState =
     \<lparr>atoms = [Rep isSpace 1 None, Rep isUpperAZ 2 None, Rep isSpace 1 None,
               Rep isUpperAZ 2 (Some 2), End],
      ignoreCase = False\<rparr>"

definition stripPrefix :: "string \<Rightarrow> string \<Rightarrow> string" where
  "stripPrefix s p = (if startsWith s p then trim (drop (length p) s) else s)"

definition stripSuffix :: "string \<Rightarrow> regex \<Rightarrow> string" where
  "stripSuffix s re = trim (replaceFirst re [] s)"

definition normalizeMerchant :: "string \<Rightarrow> string" where
  "normalizeMerchant description =
     (let normalized = trim (toUpperCase description);
          normalized = foldl stripPrefix normalized MERCHANT_PREFIXES;
          normalized = foldl stripSuffix normalized MERCHANT_SUFFIXES;
          normalized = trim (replaceAll whitespaceRun '' '' normalized);
          normalized = trim (replaceFirst trailingId [] normalized);
          normalized = trim (replaceFirst cityState [] normalized)
      in normalized)"

text \<open>
  Three shapes used to describe the normaliser's output: white space that consists of
  single spaces, no white space at either end, and a pattern that ends with the anchor
  \<open>$\<close>.
\<close>

fun singleSpaced :: "string \<Rightarrow> bool" where
  "singleSpaced [] = True"
| "singleSpaced [c] = (if isSpace c then c = CHR '' '' else True)"
| "singleSpaced (c # d # r) =
     ((if isSpace c then c = CHR '' '' \<and> \<not> isSpace d else True) \<and> singleSpaced (d # r))"

definition trimmed :: "string \<Rightarrow> bool" where
  "trimmed s = (if s = [] then True else \<not> isSpace (hd s) \<and> \<not> isSpace (last s))"

definition anchored :: "regex \<Rightarrow> bool" where
  "anchored re = (atoms re \<noteq> [] \<and> last (atoms re) = End)"


section \<open>Categorisation\<close>

definition CATEGORIES :: "string list" where
  "CATEGORIES =
     [''Coffee'', ''Groceries'', ''Dining'', ''Transportation'', ''Gas'', ''Entertainment'',
      ''Shopping'', ''Healthcare'', ''Fitness'', ''Utilities'', ''Insurance'',
      ''Subscriptions'', ''Travel'', ''Education'', ''Personal Care'', ''Pets'', ''Home'',
      ''Transfer'', ''Cash Withdrawal'', ''Fees'', ''Income'', ''Other'']"

datatype confidence = High | Medium | Low

datatype categorization_method = Rule | Pattern | AI | Fallback

text \<open>
  The category is a string, as in the source: a rule's category is cast to \<open>Category\<close>
  without a check. \<open>suggestRule\<close> is an optional field. The field \<open>method\<close> of the
  source is \<open>via_method\<close> here.
\<close>

record CategorizationResult =
  category :: string
  confidence :: confidence
  via_method :: categorization_method
  normalizedMerchant :: string
  suggestRule :: "bool option"

record CategoryRule =
  rulePattern :: string
  ruleCategory :: string

text \<open>\<open>EXTENDED_PATTERNS\<close>, in the order \<open>Object.entries\<close> enumerates it.\<close>

definition EXTENDED_PATTERNS :: "(string \<times> string list) list" where
  "EXTENDED_PATTERNS =
     [
      (''Coffee'', [''STARBUCKS'', ''COFFEE'', ''DUNKIN'', ''PEET'', ''CARIBOU'', ''COSTA'',
         ''TIM HORTON'', ''PHILZ'', ''BLUE BOTTLE'', ''CAFE'', ''ESPRESSO'', ''DUTCH BROS'',
         ''PEETS'']),
      (''Groceries'', [''WHOLE FOODS'', ''SAFEWAY'', ''TRADER JOE'', ''KROGER'', ''WALMART'',
         ''COSTCO'', ''ALDI'', ''PUBLIX'', ''WEGMANS'', ''HEB'', ''MARKET'', ''GROCERY'',
         ''SUPERMARKET'', ''FOOD LION'', ''GIANT'', ''HARRIS TEETER'', ''SPROUTS'', ''FRESH'',
         ''FOODS'', ''INSTACART'']),
      (''Dining'', [''RESTAURANT'', ''PIZZA'', ''MCDONALD'', ''CHIPOTLE'', ''SUBWAY'',
         ''BURGER'', ''TACO'', ''WENDY'', ''CHICK-FIL'', ''PANERA'', ''OLIVE GARDEN'',
         ''APPLEBEE'', ''IHOP'', ''DENNY'', ''GRUBHUB'', ''DOORDASH'', ''UBEREATS'',
         ''POSTMATES'', ''SEAMLESS'', ''YELP EAT'', ''CHILI'', ''OUTBACK'', ''RED ROBIN'',
         ''BUFFALO WILD'', ''FIVE GUYS'', ''IN-N-OUT'', ''SHAKE SHACK'', ''WINGSTOP'',
         ''DOMINO'', ''PAPA JOHN'', ''LITTLE CAESAR'', ''KFC'', ''POPEYE'', ''PANDA EXPRESS'',
         ''NOODLES'', ''SUSHI'', ''RAMEN'', ''PHO'', ''THAI'', ''INDIAN'', ''CHINESE'',
         ''MEXICAN'', ''ITALIAN'', ''GRILL'', ''BBQ'', ''STEAKHOUSE'', ''DINER'', ''BISTRO'',
         ''EATERY'', ''KITCHEN'', ''CANTINA'', ''TAVERN'', ''PUB'', ''BAR & GRILL'']),
      (''Transportation'', [''UBER'', ''LYFT'', ''TAXI'', ''CAB'', ''METRO'', ''TRANSIT'',
         ''BUS'', ''TRAIN'', ''AMTRAK'', ''PARKING'', ''TOLL'', ''BIRD'', ''LIME'',
         ''SCOOTER'']),
      (''Gas'', [''SHELL'', ''CHEVRON'', ''EXXON'', ''BP '', ''MOBIL'', ''TEXACO'', ''ARCO'',
         ''CITGO'', ''SUNOCO'', ''MARATHON'', ''VALERO'', ''PHILLIPS 66'', ''GAS'', ''FUEL'',
         ''PETRO'', ''76 '', ''SPEEDWAY'', ''WAWA'', ''QUIKTRIP'', ''RACETRAC'',
         ''CIRCLE K'']),
      (''Entertainment'', [''NETFLIX'', ''SPOTIFY'', ''HULU'', ''DISNEY'', ''HBO'',
         ''AMAZON PRIME'', ''APPLE TV'', ''YOUTUBE'', ''PEACOCK'', ''PARAMOUNT'', ''MOVIE'',
         ''CINEMA'', ''THEATRE'', ''THEATER'', ''CONCERT'', ''TICKETMASTER'', ''STUBHUB'',
         ''EVENTBRITE'', ''STEAM'', ''PLAYSTATION'', ''XBOX'', ''NINTENDO'', ''GAMING'',
         ''AMC '', ''REGAL'', ''FANDANGO'', ''TWITCH'', ''CRUNCHYROLL'', ''ESPN'']),
      (''Shopping'', [''TARGET'', ''AMAZON'', ''EBAY'', ''ETSY'', ''BEST BUY'',
         ''APPLE STORE'', ''IKEA'', ''HOME DEPOT'', ''LOWES'', ''BED BATH'', ''MACYS'',
         ''NORDSTROM'', ''KOHLS'', ''JC PENNEY'', ''SEPHORA'', ''ULTA'', ''NIKE'', ''ADIDAS'',
         ''GAP'', ''OLD NAVY'', ''ZARA'', ''H&M'', ''FOREVER 21'', ''TJ MAXX'', ''ROSS'',
         ''MARSHALLS'', ''DOLLAR'', ''STAPLES'', ''OFFICE DEPOT'', ''MICHAELS'',
         ''HOBBY LOBBY'', ''JOANN'', ''LULULEMON'', ''FOOT LOCKER'', ''FINISH LINE'',
         ''DICKS SPORTING'', ''REI '', ''BASS PRO'', ''CABELAS'']),
      (''Healthcare'', [''PHARMACY'', ''CVS'', ''WALGREENS'', ''RITE AID'', ''DOCTOR'',
         ''HOSPITAL'', ''MEDICAL'', ''DENTAL'', ''VISION'', ''OPTOMETRY'', ''CLINIC'',
         ''HEALTH'', ''URGENT CARE'', ''KAISER'', ''BLUE CROSS'', ''AETNA'', ''UNITED HEALTH'',
         ''CIGNA'', ''QUEST DIAG'', ''LABCORP'', ''THERAPY'', ''COUNSELING'',
         ''MENTAL HEALTH'', ''CHIROPRACT'']),
      (''Fitness'', [''GYM'', ''FITNESS'', ''PLANET FITNESS'', ''LA FITNESS'',
         ''24 HOUR FITNESS'', ''EQUINOX'', ''ORANGETHEORY'', ''CROSSFIT'', ''YOGA'',
         ''PELOTON'', ''CLASSPASS'', ''ANYTIME FITNESS'', ''GOLD GYM'', ''LIFETIME'', ''YMCA'',
         ''YWCA'']),
      (''Utilities'', [''ELECTRIC'', ''GAS BILL'', ''WATER'', ''SEWER'', ''TRASH'', ''WASTE'',
         ''COMCAST'', ''XFINITY'', ''VERIZON'', ''AT&T'', ''T-MOBILE'', ''SPRINT'',
         ''INTERNET'', ''CABLE'', ''PG&E'', ''SOUTHERN CALIFORNIA EDISON'', ''CON EDISON'',
         ''DUKE ENERGY'', ''DOMINION'', ''NATIONAL GRID'']),
      (''Insurance'', [''INSURANCE'', ''GEICO'', ''STATE FARM'', ''ALLSTATE'', ''PROGRESSIVE'',
         ''LIBERTY MUTUAL'', ''FARMERS'', ''USAA'', ''NATIONWIDE'', ''AFLAC'', ''METLIFE'',
         ''PRUDENTIAL'']),
      (''Subscriptions'', [''SUBSCRIPTION'', ''MEMBERSHIP'', ''ADOBE'', ''MICROSOFT'',
         ''DROPBOX'', ''ICLOUD'', ''GOOGLE STORAGE'', ''GOOGLE ONE'', ''MEDIUM'', ''SUBSTACK'',
         ''PATREON'', ''GITHUB'', ''NOTION'', ''SLACK'', ''ZOOM'', ''CANVA'', ''GRAMMARLY'',
         ''LASTPASS'', ''1PASSWORD'', ''DASHLANE'', ''VPN'', ''NORDVPN'', ''EXPRESSVPN'',
         ''AUDIBLE'', ''KINDLE'']),
      (''Travel'', [''AIRLINE'', ''UNITED'', ''DELTA'', ''AMERICAN AIRLINES'', ''SOUTHWEST'',
         ''JETBLUE'', ''SPIRIT'', ''FRONTIER'', ''HOTEL'', ''MARRIOTT'', ''HILTON'', ''HYATT'',
         ''AIRBNB'', ''VRBO'', ''BOOKING'', ''EXPEDIA'', ''KAYAK'', ''TRIVAGO'', ''HERTZ'',
         ''ENTERPRISE'', ''AVIS'', ''BUDGET'', ''NATIONAL CAR'', ''ALAMO'', ''TURO'',
         ''CRUISE'']),
      (''Education'', [''UNIVERSITY'', ''COLLEGE'', ''SCHOOL'', ''TUITION'', ''COURSERA'',
         ''UDEMY'', ''SKILLSHARE'', ''MASTERCLASS'', ''LINKEDIN LEARNING'', ''DUOLINGO'',
         ''BOOKS'', ''TEXTBOOK'', ''CHEGG'', ''QUIZLET'', ''KHAN ACADEMY'', ''CODECADEMY'',
         ''UDACITY'', ''EDX'', ''PLURALSIGHT'']),
      (''Personal Care'', [''SALON'', ''BARBER'', ''HAIR'', ''SPA'', ''MASSAGE'', ''NAIL'',
         ''BEAUTY'', ''WAXING'', ''LASER'', ''DERMATOLOG'', ''SKINCARE'', ''COSMETIC'']),
      (''Pets'', [''PETCO'', ''PETSMART'', ''VET'', ''VETERINARY'', ''PET SUPPLIES'',
         ''CHEWY'', ''BANFIELD'', ''PET FOOD'', ''GROOMING'']),
      (''Home'', [''RENT'', ''MORTGAGE'', ''PROPERTY'', ''MAINTENANCE'', ''REPAIR'',
         ''PLUMBER'', ''ELECTRICIAN'', ''CLEANING'', ''MAID'', ''HOUSEKEEPING'', ''LANDLORD'',
         ''APARTMENT'', ''CONDO'', ''HOA'']),
      (''Transfer'', [''VENMO'', ''PAYPAL'', ''ZELLE'', ''CASH APP'', ''WIRE'', ''ACH'',
         ''TRANSFER'', ''SEND MONEY'', ''PAYMENT TO'', ''PAYMENT FROM'']),
      (''Cash Withdrawal'', [''ATM'', ''CASH'', ''WITHDRAWAL'', ''CASH BACK'']),
      (''Fees'', [''FEE'', ''CHARGE'', ''OVERDRAFT'', ''LATE FEE'', ''SERVICE CHARGE'',
         ''MAINTENANCE FEE'', ''MONTHLY FEE'', ''ANNUAL FEE'', ''INTEREST CHARGE'',
         ''FINANCE CHARGE'']),
      (''Income'', [''PAYROLL'', ''SALARY'', ''DEPOSIT'', ''DIRECT DEP'', ''INTEREST'',
         ''DIVIDEND'', ''REFUND'', ''REIMBURSEMENT'', ''BONUS'', ''COMMISSION'', ''INCOME'',
         ''CREDIT'', ''CASHBACK'', ''REWARD'']),
      (''Other'', [])]"

text \<open>
  \<open>categorizeByPattern\<close> first awaits \<open>getCategoryRules()\<close>. The definition below is the
  body that runs once that read has resolved: \<open>rules\<close> is the listing it resolved to, in
  the order the store enumerated it. The read itself, which can reject, is
  \<open>getCategoryRules\<close> further down, with the functions that await it.
\<close>

definition ruleMatches :: "string \<Rightarrow> CategoryRule \<Rightarrow> bool" where
  "ruleMatches upperDesc rule = includesStr upperDesc (toUpperCase (rulePattern rule))"

definition tableMatches :: "string \<Rightarrow> string \<times> string list \<Rightarrow> bool" where
  "tableMatches upperDesc entry = list_ex (includesStr upperDesc) (snd entry)"

definition categorizeByPattern :: "CategoryRule list \<Rightarrow> string \<Rightarrow> CategorizationResult option" where
  "categorizeByPattern rules description =
     (let normalizedMerchant = normalizeMerchant description;
          upperDesc = toUpperCase normalizedMerchant
      in case find (ruleMatches upperDesc) rules of
           Some rule \<Rightarrow>
             Some \<lparr>category = ruleCategory rule, confidence = High, via_method = Rule,
                   normalizedMerchant = normalizedMerchant, suggestRule = None\<rparr>
         | None \<Rightarrow>
            (case find (tableMatches upperDesc) EXTENDED_PATTERNS of
               Some entry \<Rightarrow>
                 Some \<lparr>category = fst entry, confidence = High, via_method = Pattern,
                       normalizedMerchant = normalizedMerchant, suggestRule = None\<rparr>
             | None \<Rightarrow>
                 if startsWith (toUpperCase description) ''SQ *''
                    \<or> startsWith (toUpperCase description) ''SQU*''
                 then None
                 else if startsWith (toUpperCase description) ''TST*''
                         \<or> startsWith (toUpperCase description) ''TOAST*''
                 then Some \<lparr>category = ''Dining'', confidence = Medium, via_method = Pattern,
                            normalizedMerchant = normalizedMerchant, suggestRule = None\<rparr>
                 else None))"

subsection \<open>The hosted model\<close>

text \<open>
  What \<open>openai.chat.completions.create\<close> can do: reject (\<open>Threw\<close>), resolve to a
  response without \<open>choices[0].message\<close> (\<open>Malformed\<close>), or resolve to a response whose
  message content is a string or null. \<open>chatBatch\<close> also receives the number of the call,
  since the service may answer the same prompt differently. \<open>jsonParse\<close> stands for
  \<open>JSON.parse\<close> followed by the reads \<open>categories[j]\<close>: \<open>None\<close> when parsing or
  indexing throws, otherwise the entries, \<open>Some s\<close> for a string \<open>s\<close> and \<open>None\<close> for
  anything else; a read past the end is \<open>undefined\<close>.
\<close>

datatype chat_reply = Threw | Malformed | Content "string option"

record environment =
  apiKey :: bool
  chatSingle :: "string \<Rightarrow> string \<Rightarrow> chat_reply"
  chatBatch :: "nat \<Rightarrow> string list \<Rightarrow> chat_reply"
  jsonParse :: "string \<Rightarrow> string option list option"

definition fallbackResult :: "string \<Rightarrow> CategorizationResult" where
  "fallbackResult normalized =
     \<lparr>category = ''Other'', confidence = Low, via_method = Fallback,
      normalizedMerchant = normalized, suggestRule = Some True\<rparr>"

definition aiResult :: "string \<Rightarrow> string \<Rightarrow> CategorizationResult" where
  "aiResult validCategory normalized =
     \<lparr>category = validCategory,
      confidence = (if validCategory = ''Other'' then Low else Medium),
      via_method = AI, normalizedMerchant = normalized, suggestRule = Some True\<rparr>"

definition categorizeByAI :: "environment \<Rightarrow> string \<Rightarrow> string \<Rightarrow> CategorizationResult" where
  "categorizeByAI env description normalized =
     (if \<not> apiKey env then fallbackResult normalized
      else case chatSingle env description normalized of
             Threw \<Rightarrow> fallbackResult normalized
           | Malformed \<Rightarrow> fallbackResult normalized
           | Content content \<Rightarrow>
               (let aiCategory =
                      (case content of
                         None \<Rightarrow> ''Other''
                       | Some c \<Rightarrow> if trim c = [] then ''Other'' else trim c);
                    validCategory =
                      (if aiCategory \<in> set CATEGORIES then aiCategory else ''Other'')
                in aiResult validCategory normalized))"

definition smartCategorize :: "environment \<Rightarrow> CategoryRule list \<Rightarrow> string \<Rightarrow> CategorizationResult" where
  "smartCategorize env rules description =
     (case categorizeByPattern rules description of
        Some patternResult \<Rightarrow> patternResult
      | None \<Rightarrow> categorizeByAI env description (normalizeMerchant description))"

subsection \<open>Learning from a correction\<close>

text \<open>
  The rule table has a unique index on \<open>pattern\<close>. An insert into it fails with
  Postgres code 23505 when the pattern is already stored, and with some other error when
  the database cannot be reached.
\<close>

datatype db_error = UniqueViolation | OtherDbError

record ruleStore =
  ruleTable :: "CategoryRule list"
  online :: bool

definition insertCategoryRule :: "ruleStore \<Rightarrow> CategoryRule \<Rightarrow> db_error + ruleStore" where
  "insertCategoryRule store rule =
     (if \<not> online store then Inl OtherDbError
      else if rulePattern rule \<in> set (map rulePattern (ruleTable store)) then Inl UniqueViolation
      else Inr (store\<lparr>ruleTable := ruleTable store @ [rule]\<rparr>))"

record learnResult =
  ruleCreated :: bool
  pattern :: "string option"

definition learnFromCorrection ::
  "ruleStore \<Rightarrow> string \<Rightarrow> string \<Rightarrow> bool \<Rightarrow> learnResult \<times> ruleStore" where
  "learnFromCorrection store originalDescription correctedCategory createRule =
     (if \<not> createRule then (\<lparr>ruleCreated = False, pattern = None\<rparr>, store)
      else
        let normalized = normalizeMerchant originalDescription
        in if length normalized < 3 \<or> length normalized > 50
           then (\<lparr>ruleCreated = False, pattern = None\<rparr>, store)
           else case insertCategoryRule store
                       \<lparr>rulePattern = normalized, ruleCategory = correctedCategory\<rparr> of
                  Inr store' \<Rightarrow> (\<lparr>ruleCreated = True, pattern = Some normalized\<rparr>, store')
                | Inl UniqueViolation \<Rightarrow>
                    (\<lparr>ruleCreated = False, pattern = Some normalized\<rparr>, store)
                | Inl OtherDbError \<Rightarrow> (\<lparr>ruleCreated = False, pattern = None\<rparr>, store))"

subsection \<open>Batch categorisation\<close>

text \<open>
  \<open>results\<close> is a JavaScript array filled by index: a store past the end extends the
  array and leaves holes. A hole, like a read past the end, is \<open>undefined\<close>.
\<close>

type_synonym results = "CategorizationResult option list"

definition assign :: "'a option list \<Rightarrow> nat \<Rightarrow> 'a \<Rightarrow> 'a option list" where
  "assign xs i v =
     (if i < length xs then xs[i := Some v]
      else xs @ replicate (i - length xs) None @ [Some v])"

definition elemAt :: "'a option list \<Rightarrow> nat \<Rightarrow> 'a option" where
  "elemAt xs i = (if i < length xs then xs ! i else None)"

record needsItem =
  itemIndex :: nat
  itemDescription :: string
  itemNormalized :: string

fun firstPass ::
  "CategoryRule list \<Rightarrow> nat \<Rightarrow> string list \<Rightarrow> results \<times> needsItem list
     \<Rightarrow> results \<times> needsItem list" where
  "firstPass rules i [] state = state"
| "firstPass rules i (d # ds) state =
     firstPass rules (Suc i) ds
       (case categorizeByPattern rules d of
          Some patternResult \<Rightarrow> (assign (fst state) i patternResult, snd state)
        | None \<Rightarrow>
            (fst state,
             snd state @ [\<lparr>itemIndex = i, itemDescription = d,
                           itemNormalized = normalizeMerchant d\<rparr>]))"

definition validCategory :: "string option \<Rightarrow> string" where
  "validCategory entry =
     (case entry of
        None \<Rightarrow> ''Other''
      | Some c \<Rightarrow> if c \<noteq> [] \<and> c \<in> set CATEGORIES then c else ''Other'')"

fun fillParsed :: "string option list \<Rightarrow> nat \<Rightarrow> needsItem list \<Rightarrow> results \<Rightarrow> results" where
  "fillParsed categories j [] res = res"
| "fillParsed categories j (b # bs) res =
     fillParsed categories (Suc j) bs
       (assign res (itemIndex b)
          (aiResult (validCategory (elemAt categories j)) (itemNormalized b)))"

definition fillFallback :: "needsItem list \<Rightarrow> results \<Rightarrow> results" where
  "fillFallback items res =
     foldl (\<lambda>r item. assign r (itemIndex item) (fallbackResult (itemNormalized item))) res items"

definition fillMissing :: "needsItem list \<Rightarrow> results \<Rightarrow> results" where
  "fillMissing items res =
     foldl (\<lambda>r item. if elemAt r (itemIndex item) = None
                      then assign r (itemIndex item) (fallbackResult (itemNormalized item))
                      else r) res items"

definition batchSize :: nat where
  "batchSize = 20"

definition contentOr :: "string option \<Rightarrow> string \<Rightarrow> string" where
  "contentOr content dflt = (case content of None \<Rightarrow> dflt | Some c \<Rightarrow> if c = [] then dflt else c)"

text \<open>
  The loop over the batches. The flag of the result says that a call rejected, which takes
  the source to its outer \<open>catch\<close> with the array as filled so far.
\<close>

function runBatches :: "environment \<Rightarrow> nat \<Rightarrow> needsItem list \<Rightarrow> results \<Rightarrow> results \<times> bool" where
  "runBatches env k needsAI res =
     (if needsAI = [] then (res, False)
      else
        let batch = take batchSize needsAI
        in case chatBatch env k (map itemNormalized batch) of
             Threw \<Rightarrow> (res, True)
           | Malformed \<Rightarrow>
               runBatches env (Suc k) (drop batchSize needsAI) (fillFallback batch res)
           | Content content \<Rightarrow>
               (case jsonParse env (contentOr content ''[]'') of
                  None \<Rightarrow>
                    runBatches env (Suc k) (drop batchSize needsAI) (fillFallback batch res)
                | Some categories \<Rightarrow>
                    runBatches env (Suc k) (drop batchSize needsAI)
                      (fillParsed categories 0 batch res)))"
  by pat_completeness auto
termination
  by (relation "measure (\<lambda>(env, k, needsAI, res). length needsAI)") (auto simp: batchSize_def)

declare runBatches.simps [simp del]

definition batchCategorize :: "environment \<Rightarrow> CategoryRule list \<Rightarrow> string list \<Rightarrow> results" where
  "batchCategorize env rules descriptions =
     (let state = firstPass rules 0 descriptions ([], []);
          results = fst state;
          needsAI = snd state
      in if needsAI \<noteq> [] \<and> apiKey env
         then (case runBatches env 0 needsAI results of
                 (results', threw) \<Rightarrow> if threw then fillMissing needsAI results' else results')
         else fillFallback needsAI results)"

text \<open>
  \<open>batchCategorize\<close> above is the function once every read of the rule table in its
  first pass has resolved to \<open>rules\<close>. What follows is the function with those reads.
  \<open>categorizeByPattern\<close> awaits \<open>getCategoryRules()\<close> once for every description, and
  the first pass is outside the \<open>try\<close> blocks of \<open>batchCategorize\<close>: when a read rejects,
  the promise of \<open>batchCategorize\<close> rejects with that error and no array is returned.
  \<open>reads i\<close> is the outcome of the read made for the description at index \<open>i\<close>:
  \<open>None\<close> when it resolves, \<open>Some e\<close> when it rejects with \<open>e\<close>. The rule table is the
  same at every read of one call.
\<close>

definition getCategoryRules ::
  "(nat \<Rightarrow> db_error option) \<Rightarrow> CategoryRule list \<Rightarrow> nat \<Rightarrow> db_error + CategoryRule list" where
  "getCategoryRules reads rules i = (case reads i of Some e \<Rightarrow> Inl e | None \<Rightarrow> Inr rules)"

definition categorizeByPatternAsync ::
  "(nat \<Rightarrow> db_error option) \<Rightarrow> CategoryRule list \<Rightarrow> nat \<Rightarrow> string
     \<Rightarrow> db_error + CategorizationResult option" where
  "categorizeByPatternAsync reads rules i description =
     (case getCategoryRules reads rules i of
        Inl e \<Rightarrow> Inl e
      | Inr listing \<Rightarrow> Inr (categorizeByPattern listing description))"

fun firstPassAsync ::
  "(nat \<Rightarrow> db_error option) \<Rightarrow> CategoryRule list \<Rightarrow> nat \<Rightarrow> string list
     \<Rightarrow> results \<times> needsItem list \<Rightarrow> db_error + results \<times> needsItem list" where
  "firstPassAsync reads rules i [] state = Inr state"
| "firstPassAsync reads rules i (d # ds) state =
     (case categorizeByPatternAsync reads rules i d of
        Inl e \<Rightarrow> Inl e
      | Inr found \<Rightarrow>
          firstPassAsync reads rules (Suc i) ds
            (case found of
               Some patternResult \<Rightarrow> (assign (fst state) i patternResult, snd state)
             | None \<Rightarrow>
                 (fst state,
                  snd state @ [\<lparr>itemIndex = i, itemDescription = d,
                                itemNormalized = normalizeMerchant d\<rparr>])))"

definition batchCategorizeAsync ::
  "environment \<Rightarrow> (nat \<Rightarrow> db_error option) \<Rightarrow> CategoryRule list \<Rightarrow> string list
     \<Rightarrow> db_error + results" where
  "batchCategorizeAsync env reads rules descriptions =
     (case firstPassAsync reads rules 0 descriptions ([], []) of
        Inl e \<Rightarrow> Inl e
      | Inr state \<Rightarrow>
          Inr (let results = fst state;
                   needsAI = snd state
               in if needsAI \<noteq> [] \<and> apiKey env
                  then (case runBatches env 0 needsAI results of
                          (results', threw) \<Rightarrow>
                            if threw then fillMissing needsAI results' else results')
                  else fillFallback needsAI results))"

text \<open>
  A reply that takes the source to the inner \<open>catch\<close>: a response without a message, or
  a content that \<open>JSON.parse\<close> or the reads of the entries reject.
\<close>

definition parseFails :: "environment \<Rightarrow> chat_reply \<Rightarrow> bool" where
  "parseFails env reply =
     (case reply of
        Threw \<Rightarrow> False
      | Malformed \<Rightarrow> True
      | Content c \<Rightarrow> jsonParse env (contentOr c ''[]'') = None)"

section \<open>Query safety layer\<close>

text \<open>\<open>/FROM\s+transactions\b/gi\<close> and \<open>/FROM\s+transactions\s+WHERE/gi\<close>.\<close>

definition fromTransactionsRegex :: regex where
  "fromTransactionsRegex =
     \<lparr>atoms = [Lit ''FROM'', Rep isSpace 1 None, Lit ''transactions'', WordB],
      ignoreCase = True\<rparr>"

definition fromTransactionsWhere :: regex where
  "fromTransactionsWhere =
     \<lparr>atoms = [Lit ''FROM'', Rep isSpace 1 None, Lit ''transactions'', Rep isSpace 1 None,
               Lit ''WHERE''],
      ignoreCase = True\<rparr>"

definition quote :: char where
  "quote = CHR 0x27"

definition whereUser :: "string \<Rightarrow> string" where
  "whereUser userId = ''FROM transactions WHERE user_id = '' @ [quote] @ userId @ [quote]"

text \<open>The block that builds \<open>secureQuery\<close>, the same in the tool and in \<open>executeRawQuery\<close>.\<close>

definition secureQuery :: "string \<Rightarrow> string \<Rightarrow> string" where
  "secureQuery userId query =
     (let hasWhere = test fromTransactionsWhere query
      in if test fromTransactionsRegex query
         then (if hasWhere
               then replaceAll fromTransactionsWhere (whereUser userId @ '' AND'') query
               else replaceAll fromTransactionsRegex (whereUser userId) query)
         else query)"

text \<open>
  The store is the function that runs one statement: it answers with rows or raises with a
  message. The second component of a result lists the statements that reached the store.
\<close>

datatype raw_error = OnlySelectAllowed | StoreError string

definition executeRawQuery ::
  "(string \<Rightarrow> string + 'row list) \<Rightarrow> string \<Rightarrow> string \<Rightarrow> (raw_error + 'row list) \<times> string list" where
  "executeRawQuery neonSql userId query =
     (let normalizedQuery = toUpperCase (trim query)
      in if \<not> startsWith normalizedQuery ''SELECT'' then (Inl OnlySelectAllowed, [])
         else
           let secure = secureQuery userId query
           in (case neonSql secure of Inl e \<Rightarrow> Inl (StoreError e) | Inr rows \<Rightarrow> Inr rows,
               [secure]))"

text \<open>
  The \<open>sql_query\<close> tool returns a JSON payload and never throws: \<open>ToolSuccess\<close> carries
  \<open>rowCount\<close>, \<open>data\<close> and \<open>query\<close>, \<open>ToolFailure\<close> the error message and, when the
  payload has one, the query. The first tool wraps \<open>executeRawQuery\<close>; the second is the
  variant that checks and rewrites the statement itself before \<open>db.prepare\<close>.
\<close>

datatype 'row tool_payload =
    ToolSuccess nat "'row list" string
  | ToolFailure string "string option"

definition createSqlQueryTool ::
  "(string \<Rightarrow> string + 'row list) \<Rightarrow> string \<Rightarrow> string \<Rightarrow> 'row tool_payload \<times> string list" where
  "createSqlQueryTool neonSql userId query =
     (case executeRawQuery neonSql userId query of
        (Inr rows, sent) \<Rightarrow> (ToolSuccess (length rows) (take 100 rows) query, sent)
      | (Inl OnlySelectAllowed, sent) \<Rightarrow>
          (ToolFailure ''Only SELECT queries are allowed'' (Some query), sent)
      | (Inl (StoreError e), sent) \<Rightarrow> (ToolFailure e (Some query), sent))"

definition createSqlQueryTool_sqlite ::
  "(string \<Rightarrow> string + 'row list) \<Rightarrow> string \<Rightarrow> string \<Rightarrow> 'row tool_payload \<times> string list" where
  "createSqlQueryTool_sqlite prepareAll userId query =
     (let normalizedQuery = toUpperCase (trim query)
      in if \<not> startsWith normalizedQuery ''SELECT''
         then (ToolFailure ''Only SELECT queries are allowed for security reasons.'' None, [])
         else
           let secure = secureQuery userId query
           in (case prepareAll secure of
                 Inl e \<Rightarrow> ToolFailure e (Some query)
               | Inr rows \<Rightarrow> ToolSuccess (length rows) (take 100 rows) secure,
               [secure]))"

text \<open>Patterns whose matches do not depend on the text before them and are never empty.\<close>

definition plainRegex :: "regex \<Rightarrow> bool" where
  "plainRegex re =
     (\<forall>prev s. matchHere re prev s = matchHere re None s \<and> matchHere re prev s \<noteq> Some 0)"


section \<open>Retrieval layer\<close>

text \<open>
  A number is read as a real number, so rounding and NaN are outside the model. \<open>topK\<close>
  is such a number: nothing between the schema of the retrieval tool (\<open>z.number()\<close>) and
  the search keeps it from being negative or fractional. A stored row of \<open>vector_store\<close>
  carries the columns the search reads.
\<close>

datatype DocumentType = Transaction | CategoryRuleDoc | QueryExample | Schema

record vectorRow =
  row_id :: nat
  user_id :: string
  doc_type :: DocumentType
  source_id :: string
  row_text :: string
  embedding :: "real list"

record SearchResult =
  document :: vectorRow
  score :: real

record searchOptions =
  topK :: "real option"
  docTypes :: "DocumentType list option"
  minScore :: "real option"

datatype search_error = EmptyText | EmbeddingFailed | LengthMismatch | QueryFailed

text \<open>\<open>embedText\<close>: \<open>model\<close> is the hosted embedding call, \<open>None\<close> when it rejects.\<close>

definition embedText :: "(string \<Rightarrow> real list option) \<Rightarrow> string \<Rightarrow> search_error + real list" where
  "embedText model t =
     (if t = [] \<or> length (trim t) = 0 then Inl EmptyText
      else case model (trim t) of None \<Rightarrow> Inl EmbeddingFailed | Some e \<Rightarrow> Inr e)"

definition cosineSimilarity :: "real list \<Rightarrow> real list \<Rightarrow> search_error + real" where
  "cosineSimilarity a b =
     (if length a \<noteq> length b then Inl LengthMismatch
      else
        let dotProduct = foldl (\<lambda>acc (x, y). acc + x * y) 0 (zip a b);
            normA = foldl (\<lambda>acc (x, y). acc + x * x) 0 (zip a b);
            normB = foldl (\<lambda>acc (x, y). acc + y * y) 0 (zip a b)
        in if normA = 0 \<or> normB = 0 then Inr 0
           else Inr (dotProduct / (sqrt normA * sqrt normB)))"

definition inScope :: "string \<Rightarrow> DocumentType list option \<Rightarrow> vectorRow \<Rightarrow> bool" where
  "inScope userId types row =
     (user_id row = userId
      \<and> (case types of
           None \<Rightarrow> True
         | Some ts \<Rightarrow> if length ts > 0 then doc_type row \<in> set ts else True))"

fun scoreRows :: "real list \<Rightarrow> vectorRow list \<Rightarrow> search_error + SearchResult list" where
  "scoreRows queryEmbedding [] = Inr []"
| "scoreRows queryEmbedding (row # rows) =
     (case cosineSimilarity queryEmbedding (embedding row) of
        Inl e \<Rightarrow> Inl e
      | Inr s \<Rightarrow>
          (case scoreRows queryEmbedding rows of
             Inl e \<Rightarrow> Inl e
           | Inr results \<Rightarrow> Inr (\<lparr>document = row, score = s\<rparr> # results)))"

definition optionOr :: "'a option \<Rightarrow> 'a \<Rightarrow> 'a" where
  "optionOr v dflt = (case v of None \<Rightarrow> dflt | Some x \<Rightarrow> x)"

text \<open>
  \<open>xs.slice(0, end)\<close>: the end is truncated towards zero; a negative end counts from the
  end of the array, and the slice is empty when that falls before the start.
\<close>

definition slice0 :: "real \<Rightarrow> 'a list \<Rightarrow> 'a list" where
  "slice0 e xs =
     (let relativeEnd = (if e < 0 then \<lceil>e\<rceil> else \<lfloor>e\<rfloor>)
      in if relativeEnd < 0 then take (nat (int (length xs) + relativeEnd)) xs
         else take (nat relativeEnd) xs)"

text \<open>
  The scan in application code. \<open>sort\<close> with the comparator \<open>b.score - a.score\<close> is a
  stable sort by descending score.
\<close>

definition searchSimilar ::
  "(string \<Rightarrow> real list option) \<Rightarrow> vectorRow list \<Rightarrow> string \<Rightarrow> string \<Rightarrow> searchOptions
     \<Rightarrow> search_error + SearchResult list" where
  "searchSimilar model table userId query options =
     (let k = optionOr (topK options) 10;
          least = optionOr (minScore options) (1 / 2)
      in case embedText model query of
           Inl e \<Rightarrow> Inl e
         | Inr queryEmbedding \<Rightarrow>
            (case scoreRows queryEmbedding (filter (inScope userId (docTypes options)) table) of
               Inl e \<Rightarrow> Inl e
             | Inr results \<Rightarrow>
                 Inr (slice0 k (sort_key (\<lambda>r. - score r)
                                  (filter (\<lambda>r. score r \<ge> least) results)))))"

text \<open>
  The search delegated to the database. The statement is built by interpolation and run
  with \<open>sql.unsafe\<close>, so what it returns depends on the database, which is read through
  three parameters. \<open>distance\<close> is the operator \<open><=>\<close> of pgvector, \<open>None\<close> when it
  raises. \<open>limit\<close> is what the database makes of \<open>LIMIT ${topK}\<close>: the number of rows it
  keeps, \<open>None\<close> when it refuses the value; for a non-negative integer \<open>n\<close>, SQL keeps
  \<open>n\<close> rows. \<open>injected\<close> gives the rows the database returns when the scope value
  contains a quote character: the quote ends the string literal \<open>'${userId}'\<close> early and
  the rest of the value is read as SQL (\<open>None\<close> when the database raises). For a scope
  value without a quote the statement selects the rows of the scope, orders them by
  distance and keeps the rows the \<open>LIMIT\<close> allows. The application then drops the rows
  below \<open>minScore\<close>.
\<close>

fun distanceRows ::
  "(real list \<Rightarrow> real list \<Rightarrow> real option) \<Rightarrow> real list \<Rightarrow> vectorRow list
     \<Rightarrow> search_error + (vectorRow \<times> real) list" where
  "distanceRows distance queryEmbedding [] = Inr []"
| "distanceRows distance queryEmbedding (row # rows) =
     (case distance (embedding row) queryEmbedding of
        None \<Rightarrow> Inl QueryFailed
      | Some d \<Rightarrow>
          (case distanceRows distance queryEmbedding rows of
             Inl e \<Rightarrow> Inl e
           | Inr ds \<Rightarrow> Inr ((row, d) # ds)))"

definition vectorQuery ::
  "(real list \<Rightarrow> real list \<Rightarrow> real option) \<Rightarrow> (real \<Rightarrow> nat option)
     \<Rightarrow> (string \<Rightarrow> (vectorRow \<times> real) list option) \<Rightarrow> vectorRow list
     \<Rightarrow> string \<Rightarrow> DocumentType list option \<Rightarrow> real list \<Rightarrow> real
     \<Rightarrow> search_error + (vectorRow \<times> real) list" where
  "vectorQuery distance limit injected table userId types queryEmbedding k =
     (if quote \<in> set userId
      then (case injected userId of None \<Rightarrow> Inl QueryFailed | Some rows \<Rightarrow> Inr rows)
      else case limit k of
             None \<Rightarrow> Inl QueryFailed
           | Some n \<Rightarrow>
               (case distanceRows distance queryEmbedding (filter (inScope userId types) table) of
                  Inl e \<Rightarrow> Inl e
                | Inr ds \<Rightarrow> Inr (take n (sort_key snd ds))))"

definition searchSimilar_pgvector ::
  "(string \<Rightarrow> real list option) \<Rightarrow> (real list \<Rightarrow> real list \<Rightarrow> real option)
     \<Rightarrow> (real \<Rightarrow> nat option) \<Rightarrow> (string \<Rightarrow> (vectorRow \<times> real) list option)
     \<Rightarrow> vectorRow list \<Rightarrow> string \<Rightarrow> string \<Rightarrow> searchOptions
     \<Rightarrow> search_error + SearchResult list" where
  "searchSimilar_pgvector model distance limit injected table userId query options =
     (let k = optionOr (topK options) 10;
          least = optionOr (minScore options) (1 / 2)
      in case embedText model query of
           Inl e \<Rightarrow> Inl e
         | Inr queryEmbedding \<Rightarrow>
            (case vectorQuery distance limit injected table userId (docTypes options)
                    queryEmbedding k of
               Inl e \<Rightarrow> Inl e
             | Inr rows \<Rightarrow>
                 Inr (map (\<lambda>(row, d). \<lparr>document = row\<lparr>embedding := []\<rparr>, score = 1 - d\<rparr>)
                        (filter (\<lambda>(row, d). 1 - d \<ge> least) rows))))"

section \<open>Facts about strings\<close>

lemma normalize_joes_coffee:
  "normalizeMerchant ''SQ *JOE'S COFFEE #4521 SAN FRANCISCO CA'' = ''JOE'S COFFEE #4521 SAN''"
  by code_simp

lemma startsWith_iff: "startsWith s p \<longleftrightarrow> (\<exists>post. s = p @ post)"
  unfolding startsWith_def
  by (metis append_eq_conv_conj append_take_drop_id)

lemma includesStr_iff: "includesStr s p \<longleftrightarrow> (\<exists>pre post. s = pre @ p @ post)"
proof (induction s)
  case Nil
  then show ?case by auto
next
  case (Cons c cs)
  show ?case
  proof
    assume "includesStr (c # cs) p"
    then consider "startsWith (c # cs) p" | "includesStr cs p" by auto
    then show "\<exists>pre post. c # cs = pre @ p @ post"
    proof cases
      case 1
      then obtain post where "c # cs = p @ post" by (auto simp: startsWith_iff)
      then have "c # cs = [] @ p @ post" by simp
      then show ?thesis by blast
    next
      case 2
      then obtain pre post where "cs = pre @ p @ post" using Cons.IH by blast
      then have "c # cs = (c # pre) @ p @ post" by simp
      then show ?thesis by blast
    qed
  next
    assume "\<exists>pre post. c # cs = pre @ p @ post"
    then obtain pre post where e: "c # cs = pre @ p @ post" by blast
    show "includesStr (c # cs) p"
    proof (cases pre)
      case Nil
      with e have "startsWith (c # cs) p" by (auto simp: startsWith_iff)
      then show ?thesis by simp
    next
      case (Cons a pre')
      with e have "cs = pre' @ p @ post" by simp
      then show ?thesis using Cons.IH by auto
    qed
  qed
qed

section \<open>Rule precedence\<close>

text \<open>
  C8. Stored rules take precedence over the built-in pattern table. Whenever the normalised
  merchant of a description contains the pattern of some stored rule, compared without
  regard to case, pattern categorisation (and so smart categorisation) answers with method
  \<open>Rule\<close>, confidence \<open>High\<close> and the category of the first stored rule that matches,
  whatever the pattern table holds.
\<close>

theorem rule_precedence:
  assumes "rule \<in> set rules"
    and "normalizeMerchant description = pre @ seg @ post"
    and "toUpperCase seg = toUpperCase (rulePattern rule)"
  shows "\<exists>r first. categorizeByPattern rules description = Some r
           \<and> smartCategorize env rules description = r
           \<and> via_method r = Rule \<and> confidence r = High
           \<and> find (ruleMatches (toUpperCase (normalizeMerchant description))) rules = Some first
           \<and> category r = ruleCategory first"
proof -
  let ?u = "toUpperCase (normalizeMerchant description)"
  have "?u = toUpperCase pre @ toUpperCase (rulePattern rule) @ toUpperCase post"
    using assms(2,3) by (simp add: toUpperCase_def)
  then have "ruleMatches ?u rule"
    unfolding ruleMatches_def includesStr_iff by blast
  with assms(1) have "find (ruleMatches ?u) rules \<noteq> None"
    by (auto simp: find_None_iff)
  then obtain first where f: "find (ruleMatches ?u) rules = Some first" by blast
  then show ?thesis
    by (simp add: categorizeByPattern_def smartCategorize_def Let_def)
qed

theorem rule_precedence_witness:
  "\<exists>r. categorizeByPattern [\<lparr>rulePattern = ''Joe's'', ruleCategory = ''Dining''\<rparr>]
          ''SQ *JOE'S COFFEE #4521 SAN FRANCISCO CA'' = Some r
       \<and> via_method r = Rule \<and> confidence r = High \<and> category r = ''Dining''"
proof -
  let ?rule = "\<lparr>rulePattern = ''Joe's'', ruleCategory = ''Dining''\<rparr>"
  let ?d = "''SQ *JOE'S COFFEE #4521 SAN FRANCISCO CA''"
  have n: "normalizeMerchant ?d = [] @ ''JOE'S'' @ '' COFFEE #4521 SAN''"
    by (simp add: normalize_joes_coffee)
  have u: "toUpperCase ''JOE'S'' = toUpperCase (rulePattern ?rule)"
    by code_simp
  have m: "?rule \<in> set [?rule]" by simp
  from rule_precedence [OF m n u]
  obtain r first where r: "categorizeByPattern [?rule] ?d = Some r" "via_method r = Rule"
    "confidence r = High"
    "find (ruleMatches (toUpperCase (normalizeMerchant ?d))) [?rule] = Some first"
    "category r = ruleCategory first"
    by blast
  from r(4) have "first = ?rule" by (simp split: if_splits)
  with r show ?thesis by simp
qed

section \<open>The end-to-end categorisation scenario\<close>

text \<open>
  C3. On the description \<open>SQ *JOE'S COFFEE #4521 SAN FRANCISCO CA\<close> the normaliser strips
  the processor prefix, but the store number is not at the end of the string when the
  suffix patterns run, and the city pattern takes one word and the state only. The result
  is \<open>JOE'S COFFEE #4521 SAN\<close>, not \<open>JOE'S COFFEE\<close>. With no stored rule the pattern
  table entry \<open>COFFEE\<close> still decides: category \<open>Coffee\<close>, confidence \<open>High\<close>, method
  \<open>Pattern\<close>.
\<close>

theorem joes_coffee_normalized:
  "normalizeMerchant ''SQ *JOE'S COFFEE #4521 SAN FRANCISCO CA'' = ''JOE'S COFFEE #4521 SAN''
   \<and> normalizeMerchant ''SQ *JOE'S COFFEE #4521 SAN FRANCISCO CA'' \<noteq> ''JOE'S COFFEE''
   \<and> categorizeByPattern [] ''SQ *JOE'S COFFEE #4521 SAN FRANCISCO CA'' =
       Some \<lparr>category = ''Coffee'', confidence = High, via_method = Pattern,
             normalizedMerchant = ''JOE'S COFFEE #4521 SAN'', suggestRule = None\<rparr>"
proof -
  have t: "find (tableMatches (toUpperCase ''JOE'S COFFEE #4521 SAN'')) EXTENDED_PATTERNS
      = Some (''Coffee'', [''STARBUCKS'', ''COFFEE'', ''DUNKIN'', ''PEET'', ''CARIBOU'', ''COSTA'',
         ''TIM HORTON'', ''PHILZ'', ''BLUE BOTTLE'', ''CAFE'', ''ESPRESSO'', ''DUTCH BROS'',
         ''PEETS''])"
    by code_simp
  show ?thesis
    by (simp add: normalize_joes_coffee categorizeByPattern_def Let_def t)
qed

text \<open>
  The comment at the city pattern names \<open>STARBUCKS SAN FRANCISCO CA\<close> as a description
  it is meant for. The pattern \<open>/\s+[A-Z]{2,}\s+[A-Z]{2}$/\<close> takes one word before the
  state, so the first word of the city stays.
\<close>

lemma two_word_city_half_stripped:
  "normalizeMerchant ''STARBUCKS SAN FRANCISCO CA'' = ''STARBUCKS SAN''
   \<and> normalizeMerchant ''STARBUCKS SEATTLE WA'' = ''STARBUCKS''"
  by code_simp

section \<open>The learning guard\<close>

text \<open>
  C7. Without \<open>createRule\<close> a correction changes nothing and creates no rule. With
  \<open>createRule\<close> a rule is created exactly when the normalised merchant has between 3 and
  50 characters and the insert succeeds, and then the rule table grows by that rule; in
  every other case the store is unchanged. A pattern that is already stored gives
  \<open>ruleCreated = False\<close> together with the pattern, not an error.
\<close>

theorem learnFromCorrection_guard:
  "fst (learnFromCorrection store d c False) = \<lparr>ruleCreated = False, pattern = None\<rparr>
   \<and> snd (learnFromCorrection store d c False) = store
   \<and> (ruleCreated (fst (learnFromCorrection store d c True)) \<longleftrightarrow>
        3 \<le> length (normalizeMerchant d) \<and> length (normalizeMerchant d) \<le> 50
        \<and> online store \<and> normalizeMerchant d \<notin> set (map rulePattern (ruleTable store)))
   \<and> (ruleCreated (fst (learnFromCorrection store d c True)) \<longrightarrow>
        ruleTable (snd (learnFromCorrection store d c True)) =
          ruleTable store @ [\<lparr>rulePattern = normalizeMerchant d, ruleCategory = c\<rparr>])
   \<and> (\<not> ruleCreated (fst (learnFromCorrection store d c True)) \<longrightarrow>
        snd (learnFromCorrection store d c True) = store)
   \<and> (3 \<le> length (normalizeMerchant d) \<and> length (normalizeMerchant d) \<le> 50 \<and> online store
        \<and> normalizeMerchant d \<in> set (map rulePattern (ruleTable store)) \<longrightarrow>
        fst (learnFromCorrection store d c True) =
          \<lparr>ruleCreated = False, pattern = Some (normalizeMerchant d)\<rparr>)"
  by (auto simp: learnFromCorrection_def insertCategoryRule_def Let_def)

theorem learnFromCorrection_guard_witness:
  "\<not> ruleCreated (fst (learnFromCorrection \<lparr>ruleTable = [], online = True\<rparr> ''AB'' ''Coffee'' True))
   \<and> ruleCreated (fst (learnFromCorrection \<lparr>ruleTable = [], online = True\<rparr> ''ABC'' ''Coffee'' True))
   \<and> ruleCreated (fst (learnFromCorrection \<lparr>ruleTable = [], online = True\<rparr>
          (replicate 50 CHR ''X'') ''Coffee'' True))
   \<and> \<not> ruleCreated (fst (learnFromCorrection \<lparr>ruleTable = [], online = True\<rparr>
          (replicate 51 CHR ''X'') ''Coffee'' True))
   \<and> fst (learnFromCorrection
            \<lparr>ruleTable = [\<lparr>rulePattern = ''ABC'', ruleCategory = ''Dining''\<rparr>], online = True\<rparr>
            ''abc'' ''Coffee'' True) = \<lparr>ruleCreated = False, pattern = Some ''ABC''\<rparr>"
proof -
  let ?s = "\<lparr>ruleTable = [], online = True\<rparr>"
  let ?t = "\<lparr>ruleTable = [\<lparr>rulePattern = ''ABC'', ruleCategory = ''Dining''\<rparr>], online = True\<rparr>"
  have n2: "normalizeMerchant ''AB'' = ''AB''" by code_simp
  have n3: "normalizeMerchant ''ABC'' = ''ABC''" by code_simp
  have n3': "normalizeMerchant ''abc'' = ''ABC''" by code_simp
  have n50: "normalizeMerchant (replicate 50 CHR ''X'') = replicate 50 CHR ''X''" by code_simp
  have n51: "normalizeMerchant (replicate 51 CHR ''X'') = replicate 51 CHR ''X''" by code_simp
  show ?thesis
    using learnFromCorrection_guard [of ?s "''AB''" "''Coffee''"]
      learnFromCorrection_guard [of ?s "''ABC''" "''Coffee''"]
      learnFromCorrection_guard [of ?s "replicate 50 CHR ''X''" "''Coffee''"]
      learnFromCorrection_guard [of ?s "replicate 51 CHR ''X''" "''Coffee''"]
      learnFromCorrection_guard [of ?t "''abc''" "''Coffee''"]
    by (simp add: n2 n3 n3' n50 n51)
qed

section \<open>Rejection of statements that are not SELECT\<close>

subsection \<open>Characters and trimming\<close>

lemma toUpperChar_not_lower: "\<not> isLowerAZ c \<Longrightarrow> toUpperChar c = c"
proof -
  assume "\<not> isLowerAZ c"
  then have "c \<notin> set lower_letters" by (simp add: isLowerAZ_def)
  moreover have "length lower_letters = length upper_letters"
    by (simp add: lower_letters_def upper_letters_def)
  ultimately have "map_of (zip lower_letters upper_letters) c = None"
    by (simp add: map_of_zip_is_None)
  then show ?thesis by (simp add: toUpperChar_def)
qed

lemma toUpperChar_lower: "isLowerAZ c \<Longrightarrow> isUpperAZ (toUpperChar c)"
proof -
  assume "isLowerAZ c"
  then have "c \<in> set lower_letters" by (simp add: isLowerAZ_def)
  moreover have "length lower_letters = length upper_letters"
    by (simp add: lower_letters_def upper_letters_def)
  ultimately obtain u where u: "map_of (zip lower_letters upper_letters) c = Some u"
    using map_of_zip_is_Some by fastforce
  then have "(c, u) \<in> set (zip lower_letters upper_letters)" by (rule map_of_SomeD)
  then have "u \<in> set upper_letters" by (rule set_zip_rightD)
  with u show ?thesis by (simp add: toUpperChar_def isUpperAZ_def)
qed

lemma upper_not_lower: "isUpperAZ c \<Longrightarrow> \<not> isLowerAZ c"
  by (auto simp: isUpperAZ_def isLowerAZ_def upper_letters_def lower_letters_def)

lemma space_not_letter: "isSpace c \<Longrightarrow> \<not> isLowerAZ c \<and> \<not> isUpperAZ c \<and> \<not> isDigit c"
  by (auto simp: isSpace_def isUpperAZ_def isLowerAZ_def isDigit_def upper_letters_def lower_letters_def digits_def)

lemma isSpace_toUpperChar: "isSpace c \<Longrightarrow> toUpperChar c = c"
  by (simp add: space_not_letter toUpperChar_not_lower)

lemma toUpperChar_space: "isSpace (toUpperChar c) \<longleftrightarrow> isSpace c"
  by (metis space_not_letter toUpperChar_lower toUpperChar_not_lower)

lemma toUpperChar_idem: "toUpperChar (toUpperChar c) = toUpperChar c"
  by (metis upper_not_lower toUpperChar_lower toUpperChar_not_lower)

lemma trimEnd_keeps_prefix:
  assumes "\<forall>c\<in>set kw. \<not> isSpace c"
  shows "\<exists>rest'. rev (dropWhile isSpace (rev (kw @ rest))) = kw @ rest'"
proof (cases "\<forall>c\<in>set (rev rest). isSpace c")
  case True
  have "dropWhile isSpace (rev kw) = rev kw"
    using assms by (cases "rev kw") auto
  with True show ?thesis by (simp add: dropWhile_append)
next
  case False
  then show ?thesis by (auto simp: dropWhile_append)
qed

lemma trim_keyword:
  assumes "\<forall>c\<in>set ws. isSpace c" and "kw \<noteq> []" and "\<forall>c\<in>set kw. \<not> isSpace c"
  shows "\<exists>rest'. trim (ws @ kw @ rest) = kw @ rest'"
proof -
  from assms(2,3) have "dropWhile isSpace (kw @ rest) = kw @ rest"
    by (cases kw) auto
  with assms(1) have "dropWhile isSpace (ws @ kw @ rest) = kw @ rest"
    by (simp add: dropWhile_append)
  then show ?thesis
    unfolding trim_def using trimEnd_keeps_prefix [OF assms(3)] by simp
qed

lemma keyword_not_select:
  assumes "\<forall>c\<in>set ws. isSpace c"
    and "toUpperCase kw \<in> {''INSERT'', ''UPDATE'', ''DELETE''}"
  shows "\<not> startsWith (toUpperCase (trim (ws @ kw @ rest))) ''SELECT''"
proof -
  have ne: "kw \<noteq> []" using assms(2) by (auto simp: toUpperCase_def)
  have ns: "\<forall>c\<in>set kw. \<not> isSpace c"
  proof
    fix c assume c: "c \<in> set kw"
    then have "toUpperChar c \<in> set (toUpperCase kw)" by (simp add: toUpperCase_def)
    with assms(2) have "\<not> isSpace (toUpperChar c)" by (auto simp: isSpace_def)
    then show "\<not> isSpace c" using isSpace_toUpperChar by metis
  qed
  from trim_keyword [OF assms(1) ne ns]
  obtain rest' where "trim (ws @ kw @ rest) = kw @ rest'" by blast
  then have "toUpperCase (trim (ws @ kw @ rest)) = toUpperCase kw @ toUpperCase rest'"
    by (simp add: toUpperCase_def)
  with assms(2) show ?thesis by (auto simp: startsWith_def)
qed

subsection \<open>The guard\<close>

text \<open>
  What the guard does reject. A candidate is rejected before anything reaches the store
  whenever its trimmed, upper-cased form does not begin with \<open>SELECT\<close>; in particular
  whenever it is white space followed by \<open>INSERT\<close>, \<open>UPDATE\<close> or \<open>DELETE\<close> in any
  casing. \<open>executeRawQuery\<close> raises, and both \<open>sql_query\<close> tools return a failure
  payload.
\<close>

lemma non_select_rejected:
  assumes "\<not> startsWith (toUpperCase (trim query)) ''SELECT''
     \<or> (\<exists>ws kw rest. query = ws @ kw @ rest \<and> (\<forall>c\<in>set ws. isSpace c)
           \<and> toUpperCase kw \<in> {''INSERT'', ''UPDATE'', ''DELETE''})"
  shows "executeRawQuery neonSql userId query = (Inl OnlySelectAllowed, [])
     \<and> createSqlQueryTool neonSql userId query =
         (ToolFailure ''Only SELECT queries are allowed'' (Some query), [])
     \<and> createSqlQueryTool_sqlite prepareAll userId query =
         (ToolFailure ''Only SELECT queries are allowed for security reasons.'' None, [])"
proof -
  from assms have "\<not> startsWith (toUpperCase (trim query)) ''SELECT''"
    using keyword_not_select by blast
  then show ?thesis
    by (simp add: executeRawQuery_def createSqlQueryTool_def createSqlQueryTool_sqlite_def)
qed

lemma non_select_rejected_witness:
  "executeRawQuery (\<lambda>q. Inr [()]) ''user_42'' ''DROP TABLE transactions'' = (Inl OnlySelectAllowed, [])
   \<and> executeRawQuery (\<lambda>q. Inr [()]) ''user_42'' (''  '' @ ''dElEtE'' @ '' from transactions'')
       = (Inl OnlySelectAllowed, [])
   \<and> createSqlQueryTool_sqlite (\<lambda>q. Inr [()]) ''user_42'' (''  '' @ ''dElEtE'' @ '' from transactions'')
       = (ToolFailure ''Only SELECT queries are allowed for security reasons.'' None, [])"
proof -
  have a: "\<not> startsWith (toUpperCase (trim ''DROP TABLE transactions'')) ''SELECT''"
    by code_simp
  have b: "\<exists>ws kw rest. ''  '' @ ''dElEtE'' @ '' from transactions'' = ws @ kw @ rest
      \<and> (\<forall>c\<in>set ws. isSpace c) \<and> toUpperCase kw \<in> {''INSERT'', ''UPDATE'', ''DELETE''}"
  proof (intro exI conjI)
    show "''  '' @ ''dElEtE'' @ '' from transactions'' = ''  '' @ ''dElEtE'' @ '' from transactions''" by (rule refl)
    show "\<forall>c\<in>set ''  ''. isSpace c" by (simp add: isSpace_def)
    show "toUpperCase ''dElEtE'' \<in> {''INSERT'', ''UPDATE'', ''DELETE''}" by code_simp
  qed
  show ?thesis
    using non_select_rejected [OF disjI1 [OF a], of "\<lambda>q. Inr [()]" "''user_42''" "\<lambda>q. Inr [()]"]
      non_select_rejected [OF disjI2 [OF b], of "\<lambda>q. Inr [()]" "''user_42''" "\<lambda>q. Inr [()]"]
    by simp
qed

text \<open>
  C2. The claim says that a candidate which is not a single \<open>SELECT\<close>, in particular one
  of several statements separated by semicolons, is rejected before any statement reaches
  the store; the source says the same of itself (\<open>Security: Only allow SELECT statements\<close>
  in \<open>executeRawQuery\<close>, \<open>SELECT only\<close> in the description of the tool). The guard is
  \<open>startsWith('SELECT')\<close> on the trimmed, upper-cased candidate and nothing looks for a
  semicolon: the candidate \<open>SELECT 1; DELETE FROM transactions\<close> passes the guard and
  reaches the store, \<open>DELETE\<close> included, after the scope rewrite.
\<close>

theorem multi_statement_reaches_store:
  "executeRawQuery (\<lambda>q. Inr [()]) ''user_42'' ''SELECT 1; DELETE FROM transactions''
     = (Inr [()], [''SELECT 1; DELETE FROM transactions WHERE user_id = 'user_42'' @ [quote]])"
  by code_simp

section \<open>Batch categorisation returns a full array\<close>

subsection \<open>Stores into the result array\<close>

lemma length_assign: "length (assign xs i v) = max (length xs) (Suc i)"
  by (auto simp: assign_def)

lemma elemAt_assign: "elemAt (assign xs i v) j = (if j = i then Some v else elemAt xs j)"
  by (auto simp: assign_def elemAt_def nth_append)

lemma elemAt_length: "elemAt xs j \<noteq> None \<Longrightarrow> j < length xs"
  by (auto simp: elemAt_def split: if_splits)

lemma elemAt_nth: "j < length xs \<Longrightarrow> elemAt xs j = xs ! j"
  by (simp add: elemAt_def)

lemma fillFallback_Cons:
  "fillFallback (b # bs) res =
     fillFallback bs (assign res (itemIndex b) (fallbackResult (itemNormalized b)))"
  by (simp add: fillFallback_def)

lemma fillFallback_Nil: "fillFallback [] res = res"
  by (simp add: fillFallback_def)

lemma fillMissing_Cons:
  "fillMissing (b # bs) res =
     fillMissing bs (if elemAt res (itemIndex b) = None
                     then assign res (itemIndex b) (fallbackResult (itemNormalized b)) else res)"
  by (simp add: fillMissing_def)

lemma fillMissing_Nil: "fillMissing [] res = res"
  by (simp add: fillMissing_def)

lemma fillFallback_other:
  "j \<notin> itemIndex ` set items \<Longrightarrow> elemAt (fillFallback items res) j = elemAt res j"
  by (induction items arbitrary: res) (auto simp: fillFallback_Cons fillFallback_Nil elemAt_assign)

lemma fillFallback_item:
  "distinct (map itemIndex items) \<Longrightarrow> item \<in> set items \<Longrightarrow>
   elemAt (fillFallback items res) (itemIndex item) = Some (fallbackResult (itemNormalized item))"
proof (induction items arbitrary: res)
  case Nil
  then show ?case by simp
next
  case (Cons b bs)
  show ?case
  proof (cases "item = b")
    case True
    with Cons.prems have "itemIndex item \<notin> itemIndex ` set bs" by auto
    then show ?thesis
      using True by (simp add: fillFallback_Cons fillFallback_other elemAt_assign)
  next
    case False
    with Cons show ?thesis by (simp add: fillFallback_Cons)
  qed
qed

lemma fillFallback_length:
  "length res \<le> n \<Longrightarrow> \<forall>b\<in>set items. itemIndex b < n \<Longrightarrow> length (fillFallback items res) \<le> n"
  by (induction items arbitrary: res) (auto simp: fillFallback_Cons fillFallback_Nil length_assign)

lemma fillParsed_other:
  "j \<notin> itemIndex ` set items \<Longrightarrow> elemAt (fillParsed cats p items res) j = elemAt res j"
  by (induction items arbitrary: res p) (auto simp: elemAt_assign)

lemma fillParsed_item:
  "distinct (map itemIndex items) \<Longrightarrow> q < length items \<Longrightarrow>
   elemAt (fillParsed cats p items res) (itemIndex (items ! q)) =
     Some (aiResult (validCategory (elemAt cats (p + q))) (itemNormalized (items ! q)))"
proof (induction items arbitrary: res p q)
  case Nil
  then show ?case by simp
next
  case (Cons b bs)
  show ?case
  proof (cases q)
    case 0
    with Cons.prems show ?thesis by (simp add: fillParsed_other elemAt_assign)
  next
    case (Suc q')
    with Cons.prems Cons.IH [of q' "Suc p"] show ?thesis by simp
  qed
qed

lemma fillParsed_length:
  "length res \<le> n \<Longrightarrow> \<forall>b\<in>set items. itemIndex b < n \<Longrightarrow> length (fillParsed cats p items res) \<le> n"
  by (induction items arbitrary: res p) (auto simp: length_assign)

lemma fillMissing_other:
  "j \<notin> itemIndex ` set items \<Longrightarrow> elemAt (fillMissing items res) j = elemAt res j"
  by (induction items arbitrary: res) (auto simp: fillMissing_Cons fillMissing_Nil elemAt_assign)

lemma fillMissing_keeps:
  "elemAt res j \<noteq> None \<Longrightarrow> elemAt (fillMissing items res) j = elemAt res j"
  by (induction items arbitrary: res) (auto simp: fillMissing_Cons fillMissing_Nil elemAt_assign)

lemma fillMissing_item:
  "distinct (map itemIndex items) \<Longrightarrow> item \<in> set items \<Longrightarrow> elemAt res (itemIndex item) = None \<Longrightarrow>
   elemAt (fillMissing items res) (itemIndex item) = Some (fallbackResult (itemNormalized item))"
proof (induction items arbitrary: res)
  case Nil
  then show ?case by simp
next
  case (Cons b bs)
  show ?case
  proof (cases "item = b")
    case True
    with Cons.prems have "itemIndex item \<notin> itemIndex ` set bs" by auto
    then show ?thesis
      using True Cons.prems(3) by (simp add: fillMissing_Cons fillMissing_other elemAt_assign)
  next
    case False
    with Cons.prems have ne: "itemIndex b \<noteq> itemIndex item" by auto
    from False Cons.prems have "item \<in> set bs" "distinct (map itemIndex bs)" by auto
    then show ?thesis
      using Cons.IH Cons.prems(3) ne by (simp add: fillMissing_Cons elemAt_assign)
  qed
qed

lemma fillMissing_filled:
  "item \<in> set items \<Longrightarrow> elemAt (fillMissing items res) (itemIndex item) \<noteq> None"
proof (induction items arbitrary: res)
  case Nil
  then show ?case by simp
next
  case (Cons b bs)
  show ?case
  proof (cases "item = b")
    case True
    have "elemAt (if elemAt res (itemIndex b) = None
                     then assign res (itemIndex b) (fallbackResult (itemNormalized b)) else res) (itemIndex b) \<noteq> None"
      by (simp add: elemAt_assign)
    then show ?thesis using True by (simp add: fillMissing_Cons fillMissing_keeps)
  next
    case False
    with Cons show ?thesis by (simp add: fillMissing_Cons)
  qed
qed

lemma fillMissing_length:
  "length res \<le> n \<Longrightarrow> \<forall>b\<in>set items. itemIndex b < n \<Longrightarrow> length (fillMissing items res) \<le> n"
  by (induction items arbitrary: res) (auto simp: fillMissing_Cons fillMissing_Nil length_assign)

subsection \<open>The loop over the batches\<close>

lemma in_take_idx: "j \<notin> itemIndex ` set xs \<Longrightarrow> j \<notin> itemIndex ` set (take n xs)"
  by (auto dest: in_set_takeD)

lemma in_drop_idx: "j \<notin> itemIndex ` set xs \<Longrightarrow> j \<notin> itemIndex ` set (drop n xs)"
  by (auto dest: in_set_dropD)

lemma runBatches_other:
  "j \<notin> itemIndex ` set needsAI \<Longrightarrow> elemAt (fst (runBatches env k needsAI res)) j = elemAt res j"
proof (induction env k needsAI res rule: runBatches.induct)
  case (1 env k needsAI res)
  note jt = in_take_idx [OF "1.prems", of batchSize] and jd = in_drop_idx [OF "1.prems", of batchSize]
  show ?case
  proof (cases "needsAI = []")
    case True
    then show ?thesis by (subst runBatches.simps) simp
  next
    case False
    show ?thesis
    proof (cases "chatBatch env k (map itemNormalized (take batchSize needsAI))")
      case Threw
      with False show ?thesis by (subst runBatches.simps) simp
    next
      case Malformed
      with False "1.IH"(1) [OF False refl Malformed jd] show ?thesis
        by (subst runBatches.simps) (simp add: fillFallback_other jt)
    next
      case (Content c)
      show ?thesis
      proof (cases "jsonParse env (contentOr c ''[]'')")
        case None
        with False Content "1.IH"(2) [OF False refl Content None jd] show ?thesis
          by (subst runBatches.simps) (simp add: fillFallback_other jt)
      next
        case (Some cats)
        with False Content "1.IH"(3) [OF False refl Content Some jd] show ?thesis
          by (subst runBatches.simps) (simp add: fillParsed_other jt)
      qed
    qed
  qed
qed


lemma fillFallback_mono:
  "elemAt res j \<noteq> None \<Longrightarrow> elemAt (fillFallback items res) j \<noteq> None"
  by (induction items arbitrary: res) (auto simp: fillFallback_Cons fillFallback_Nil elemAt_assign)

lemma fillFallback_filled:
  "item \<in> set items \<Longrightarrow> elemAt (fillFallback items res) (itemIndex item) \<noteq> None"
proof (induction items arbitrary: res)
  case Nil
  then show ?case by simp
next
  case (Cons b bs)
  show ?case
  proof (cases "item = b")
    case True
    then show ?thesis by (simp add: fillFallback_Cons fillFallback_mono elemAt_assign)
  next
    case False
    with Cons show ?thesis by (simp add: fillFallback_Cons)
  qed
qed

lemma fillParsed_mono:
  "elemAt res j \<noteq> None \<Longrightarrow> elemAt (fillParsed cats p items res) j \<noteq> None"
  by (induction items arbitrary: res p) (auto simp: elemAt_assign)

lemma fillParsed_filled:
  "item \<in> set items \<Longrightarrow> elemAt (fillParsed cats p items res) (itemIndex item) \<noteq> None"
proof (induction items arbitrary: res p)
  case Nil
  then show ?case by simp
next
  case (Cons b bs)
  show ?case
  proof (cases "item = b")
    case True
    then show ?thesis by (simp add: fillParsed_mono elemAt_assign)
  next
    case False
    with Cons show ?thesis by simp
  qed
qed

lemma runBatches_mono:
  "elemAt res j \<noteq> None \<Longrightarrow> elemAt (fst (runBatches env k needsAI res)) j \<noteq> None"
proof (induction env k needsAI res rule: runBatches.induct)
  case (1 env k needsAI res)
  show ?case
  proof (cases "needsAI = []")
    case True
    with "1.prems" show ?thesis by (subst runBatches.simps) simp
  next
    case False
    show ?thesis
    proof (cases "chatBatch env k (map itemNormalized (take batchSize needsAI))")
      case Threw
      with False "1.prems" show ?thesis by (subst runBatches.simps) simp
    next
      case Malformed
      with False "1.IH"(1) [OF False refl Malformed fillFallback_mono [OF "1.prems"]]
      show ?thesis by (subst runBatches.simps) simp
    next
      case (Content c)
      show ?thesis
      proof (cases "jsonParse env (contentOr c ''[]'')")
        case None
        with False Content "1.IH"(2) [OF False refl Content None fillFallback_mono [OF "1.prems"]]
        show ?thesis by (subst runBatches.simps) simp
      next
        case (Some cats)
        with False Content "1.IH"(3) [OF False refl Content Some fillParsed_mono [OF "1.prems"]]
        show ?thesis by (subst runBatches.simps) simp
      qed
    qed
  qed
qed

lemma runBatches_length:
  "length res \<le> n \<Longrightarrow> \<forall>b\<in>set needsAI. itemIndex b < n \<Longrightarrow>
   length (fst (runBatches env k needsAI res)) \<le> n"
proof (induction env k needsAI res rule: runBatches.induct)
  case (1 env k needsAI res)
  have t: "\<forall>b\<in>set (take batchSize needsAI). itemIndex b < n"
    using "1.prems"(2) by (auto dest: in_set_takeD)
  have d: "\<forall>b\<in>set (drop batchSize needsAI). itemIndex b < n"
    using "1.prems"(2) by (auto dest: in_set_dropD)
  note ff = fillFallback_length [OF "1.prems"(1) t]
  show ?case
  proof (cases "needsAI = []")
    case True
    with "1.prems" show ?thesis by (subst runBatches.simps) simp
  next
    case False
    show ?thesis
    proof (cases "chatBatch env k (map itemNormalized (take batchSize needsAI))")
      case Threw
      with False "1.prems" show ?thesis by (subst runBatches.simps) simp
    next
      case Malformed
      with False "1.IH"(1) [OF False refl Malformed ff d]
      show ?thesis by (subst runBatches.simps) simp
    next
      case (Content c)
      show ?thesis
      proof (cases "jsonParse env (contentOr c ''[]'')")
        case None
        with False Content "1.IH"(2) [OF False refl Content None ff d]
        show ?thesis by (subst runBatches.simps) simp
      next
        case (Some cats)
        with False Content
          "1.IH"(3) [OF False refl Content Some fillParsed_length [OF "1.prems"(1) t] d]
        show ?thesis by (subst runBatches.simps) simp
      qed
    qed
  qed
qed

lemma in_take_or_drop: "x \<in> set xs \<Longrightarrow> x \<in> set (take n xs) \<or> x \<in> set (drop n xs)"
  by (metis Un_iff append_take_drop_id set_append)

lemma runBatches_filled:
  "\<not> snd (runBatches env k needsAI res) \<Longrightarrow> item \<in> set needsAI \<Longrightarrow>
   elemAt (fst (runBatches env k needsAI res)) (itemIndex item) \<noteq> None"
proof (induction env k needsAI res rule: runBatches.induct)
  case (1 env k needsAI res)
  let ?batch = "take batchSize needsAI" and ?rest = "drop batchSize needsAI"
  from "1.prems"(2) have ne: "needsAI \<noteq> []" by auto
  show ?case
  proof (cases "chatBatch env k (map itemNormalized ?batch)")
    case Threw
    with ne "1.prems"(1) show ?thesis by (subst (asm) runBatches.simps) simp
  next
    case Malformed
    with ne have eq: "runBatches env k needsAI res = runBatches env (Suc k) ?rest (fillFallback ?batch res)"
      by (subst runBatches.simps) simp
    from in_take_or_drop [OF "1.prems"(2), of batchSize] show ?thesis
    proof
      assume "item \<in> set ?batch"
      then show ?thesis unfolding eq by (intro runBatches_mono fillFallback_filled)
    next
      assume "item \<in> set ?rest"
      with "1.IH"(1) [OF ne refl Malformed] "1.prems"(1) show ?thesis unfolding eq by simp
    qed
  next
    case (Content c)
    show ?thesis
    proof (cases "jsonParse env (contentOr c ''[]'')")
      case None
      with ne Content have eq: "runBatches env k needsAI res = runBatches env (Suc k) ?rest (fillFallback ?batch res)"
        by (subst runBatches.simps) simp
      from in_take_or_drop [OF "1.prems"(2), of batchSize] show ?thesis
      proof
        assume "item \<in> set ?batch"
        then show ?thesis unfolding eq by (intro runBatches_mono fillFallback_filled)
      next
        assume "item \<in> set ?rest"
        with "1.IH"(2) [OF ne refl Content None] "1.prems"(1) show ?thesis unfolding eq by simp
      qed
    next
      case (Some cats)
      with ne Content have eq: "runBatches env k needsAI res = runBatches env (Suc k) ?rest (fillParsed cats 0 ?batch res)"
        by (subst runBatches.simps) simp
      from in_take_or_drop [OF "1.prems"(2), of batchSize] show ?thesis
      proof
        assume "item \<in> set ?batch"
        then show ?thesis unfolding eq by (intro runBatches_mono fillParsed_filled)
      next
        assume "item \<in> set ?rest"
        with "1.IH"(3) [OF ne refl Content Some] "1.prems"(1) show ?thesis unfolding eq by simp
      qed
    qed
  qed
qed

subsection \<open>The first pass\<close>

lemma firstPass_step:
  "firstPass rules i (d # ds) st =
     firstPass rules (Suc i) ds
       (case categorizeByPattern rules d of
          Some r \<Rightarrow> (assign (fst st) i r, snd st)
        | None \<Rightarrow> (fst st, snd st @ [\<lparr>itemIndex = i, itemDescription = d,
                           itemNormalized = normalizeMerchant d\<rparr>]))"
  by simp

lemma firstPass_inv:
  assumes "length (fst st) \<le> i"
    and "\<forall>b\<in>set (snd st). itemIndex b < i"
    and "distinct (map itemIndex (snd st))"
  shows "length (fst (firstPass rules i ds st)) \<le> i + length ds
       \<and> (\<forall>b\<in>set (snd (firstPass rules i ds st)). itemIndex b < i + length ds)
       \<and> distinct (map itemIndex (snd (firstPass rules i ds st)))"
  using assms
proof (induction ds arbitrary: i st)
  case Nil
  then show ?case by simp
next
  case (Cons d ds)
  show ?case
  proof (cases "categorizeByPattern rules d")
    case None
    let ?st = "(fst st, snd st @ [\<lparr>itemIndex = i, itemDescription = d,
                           itemNormalized = normalizeMerchant d\<rparr>])"
    have "length (fst ?st) \<le> Suc i" using Cons.prems(1) by simp
    moreover have "\<forall>b\<in>set (snd ?st). itemIndex b < Suc i"
      using Cons.prems(2) by (auto simp: less_Suc_eq)
    moreover have "distinct (map itemIndex (snd ?st))"
      using Cons.prems(2,3) by auto
    ultimately show ?thesis
      using Cons.IH [of ?st "Suc i"] None by simp
  next
    case (Some r)
    let ?st = "(assign (fst st) i r, snd st)"
    have "length (fst ?st) \<le> Suc i" using Cons.prems(1) by (simp add: length_assign)
    moreover have "\<forall>b\<in>set (snd ?st). itemIndex b < Suc i"
      using Cons.prems(2) by (auto simp: less_Suc_eq)
    moreover have "distinct (map itemIndex (snd ?st))"
      using Cons.prems(3) by simp
    ultimately show ?thesis
      using Cons.IH [of ?st "Suc i"] Some by simp
  qed
qed

lemma firstPass_frame:
  "j < i \<Longrightarrow> elemAt (fst (firstPass rules i ds st)) j = elemAt (fst st) j"
  by (induction ds arbitrary: i st) (auto simp: elemAt_assign split: option.splits)

lemma firstPass_keeps_items:
  "b \<in> set (snd st) \<Longrightarrow> b \<in> set (snd (firstPass rules i ds st))"
  by (induction ds arbitrary: i st) (auto split: option.splits)

lemma firstPass_cover:
  assumes "j < length ds"
  shows "case categorizeByPattern rules (ds ! j) of
           Some r \<Rightarrow> elemAt (fst (firstPass rules i ds st)) (i + j) = Some r
         | None \<Rightarrow> \<lparr>itemIndex = i + j, itemDescription = ds ! j,
                    itemNormalized = normalizeMerchant (ds ! j)\<rparr>
                    \<in> set (snd (firstPass rules i ds st))"
  using assms
proof (induction ds arbitrary: i j st)
  case Nil
  then show ?case by simp
next
  case (Cons d ds)
  show ?case
  proof (cases j)
    case 0
    show ?thesis
    proof (cases "categorizeByPattern rules d")
      case None
      then show ?thesis using 0 by (simp add: firstPass_keeps_items)
    next
      case (Some r)
      then show ?thesis using 0 by (simp add: firstPass_frame elemAt_assign)
    qed
  next
    case (Suc j')
    with Cons.prems have j': "j' < length ds" by simp
    let ?st = "case categorizeByPattern rules d of
          Some r \<Rightarrow> (assign (fst st) i r, snd st)
        | None \<Rightarrow> (fst st, snd st @ [\<lparr>itemIndex = i, itemDescription = d,
                           itemNormalized = normalizeMerchant d\<rparr>])"
    have eq: "firstPass rules i (d # ds) st = firstPass rules (Suc i) ds ?st" by simp
    have idx: "i + Suc j' = Suc i + j'" "(d # ds) ! Suc j' = ds ! j'" by simp_all
    from Cons.IH [OF j', of "Suc i" ?st] show ?thesis
      unfolding Suc eq idx .
  qed
qed

lemma firstPass_unfilled:
  assumes "length (fst st) \<le> i"
    and "\<forall>b\<in>set (snd st). elemAt (fst st) (itemIndex b) = None \<and> itemIndex b < i"
  shows "\<forall>b\<in>set (snd (firstPass rules i ds st)).
           elemAt (fst (firstPass rules i ds st)) (itemIndex b) = None"
  using assms
proof (induction ds arbitrary: i st)
  case Nil
  then show ?case by simp
next
  case (Cons d ds)
  show ?case
  proof (cases "categorizeByPattern rules d")
    case None
    let ?st = "(fst st, snd st @ [\<lparr>itemIndex = i, itemDescription = d,
                           itemNormalized = normalizeMerchant d\<rparr>])"
    have "length (fst ?st) \<le> Suc i" using Cons.prems(1) by simp
    moreover have "\<forall>b\<in>set (snd ?st). elemAt (fst ?st) (itemIndex b) = None \<and> itemIndex b < Suc i"
      using Cons.prems by (auto simp: less_Suc_eq elemAt_def)
    ultimately show ?thesis
      using Cons.IH [of ?st "Suc i"] None by simp
  next
    case (Some r)
    let ?st = "(assign (fst st) i r, snd st)"
    have "length (fst ?st) \<le> Suc i" using Cons.prems(1) by (simp add: length_assign)
    moreover have "\<forall>b\<in>set (snd ?st). elemAt (fst ?st) (itemIndex b) = None \<and> itemIndex b < Suc i"
      using Cons.prems(2) by (auto simp: less_Suc_eq elemAt_assign)
    ultimately show ?thesis
      using Cons.IH [of ?st "Suc i"] Some by simp
  qed
qed

subsection \<open>Totality\<close>

lemma batchCategorize_cases:
  fixes env rules descriptions
  defines "st \<equiv> firstPass rules 0 descriptions ([], [])"
  shows "batchCategorize env rules descriptions =
     (if snd st \<noteq> [] \<and> apiKey env
      then (if snd (runBatches env 0 (snd st) (fst st))
            then fillMissing (snd st) (fst (runBatches env 0 (snd st) (fst st)))
            else fst (runBatches env 0 (snd st) (fst st)))
      else fillFallback (snd st) (fst st))"
  unfolding batchCategorize_def st_def by (simp add: Let_def split: prod.splits)

lemma batchCategorize_length_le:
  "length (batchCategorize env rules descriptions) \<le> length descriptions"
proof -
  let ?st = "firstPass rules 0 descriptions ([], [])"
  have inv: "length (fst ?st) \<le> length descriptions"
    "\<forall>b\<in>set (snd ?st). itemIndex b < length descriptions"
    using firstPass_inv [where st = "([], [])" and i = 0 and rules = rules and ds = descriptions]
    by simp_all
  note rb = runBatches_length [OF inv, where env = env and k = 0]
  show ?thesis
    unfolding batchCategorize_cases
    using fillFallback_length [OF inv] fillMissing_length [OF rb inv(2)] rb
    by simp
qed

lemma batchCategorize_filled:
  assumes "j < length descriptions"
  shows "elemAt (batchCategorize env rules descriptions) j \<noteq> None"
proof -
  let ?st = "firstPass rules 0 descriptions ([], [])"
  let ?rb = "runBatches env 0 (snd ?st) (fst ?st)"
  show ?thesis
  proof (cases "categorizeByPattern rules (descriptions ! j)")
    case (Some r)
    with firstPass_cover [OF assms, where rules = rules and i = 0 and st = "([], [])"]
    have f: "elemAt (fst ?st) j \<noteq> None" by simp
    have a: "elemAt (fillFallback (snd ?st) (fst ?st)) j \<noteq> None"
      by (rule fillFallback_mono [OF f])
    have b: "elemAt (fst ?rb) j \<noteq> None"
      by (rule runBatches_mono [OF f])
    have c: "elemAt (fillMissing (snd ?st) (fst ?rb)) j \<noteq> None"
      using fillMissing_keeps [OF b] b by simp
    from a b c show ?thesis
      unfolding batchCategorize_cases by simp
  next
    case None
    let ?item = "\<lparr>itemIndex = j, itemDescription = descriptions ! j,
                    itemNormalized = normalizeMerchant (descriptions ! j)\<rparr>"
    from None firstPass_cover [OF assms, where rules = rules and i = 0 and st = "([], [])"]
    have m: "?item \<in> set (snd ?st)" by simp
    have "elemAt (fillFallback (snd ?st) (fst ?st)) j \<noteq> None"
      using fillFallback_filled [OF m] by simp
    moreover have "elemAt (fillMissing (snd ?st) (fst ?rb)) j \<noteq> None"
      using fillMissing_filled [OF m] by simp
    moreover have "\<not> snd ?rb \<Longrightarrow> elemAt (fst ?rb) j \<noteq> None"
      using runBatches_filled [OF _ m] by simp
    ultimately show ?thesis
      unfolding batchCategorize_cases by simp
  qed
qed

lemma batchCategorize_length:
  "length (batchCategorize env rules descriptions) = length descriptions"
proof -
  let ?out = "batchCategorize env rules descriptions"
  have le: "length ?out \<le> length descriptions" by (rule batchCategorize_length_le)
  have "length descriptions \<le> length ?out"
  proof (cases "length descriptions")
    case 0
    then show ?thesis by simp
  next
    case (Suc m)
    then have "elemAt ?out m \<noteq> None" by (simp add: batchCategorize_filled)
    then have "m < length ?out" by (rule elemAt_length)
    with Suc show ?thesis by simp
  qed
  with le show ?thesis by simp
qed

section \<open>Degradation of the AI fallback\<close>

lemma distinct_take_drop_idx:
  assumes "distinct (map itemIndex xs)"
  shows "distinct (map itemIndex (take n xs))" "distinct (map itemIndex (drop n xs))"
    "x \<in> set (take n xs) \<Longrightarrow> itemIndex x \<notin> itemIndex ` set (drop n xs)"
    "x \<in> set (drop n xs) \<Longrightarrow> itemIndex x \<notin> itemIndex ` set (take n xs)"
proof -
  have "distinct (map itemIndex (take n xs) @ map itemIndex (drop n xs))"
    using assms by (metis append_take_drop_id map_append)
  then have d: "distinct (map itemIndex (take n xs))" "distinct (map itemIndex (drop n xs))"
    "set (map itemIndex (take n xs)) \<inter> set (map itemIndex (drop n xs)) = {}"
    by (simp_all only: distinct_append)
  show "distinct (map itemIndex (take n xs))" "distinct (map itemIndex (drop n xs))"
    using d by simp_all
  show "x \<in> set (take n xs) \<Longrightarrow> itemIndex x \<notin> itemIndex ` set (drop n xs)"
    using d(3) by auto
  show "x \<in> set (drop n xs) \<Longrightarrow> itemIndex x \<notin> itemIndex ` set (take n xs)"
    using d(3) by auto
qed

lemma runBatches_parse_failure:
  assumes "distinct (map itemIndex needsAI)"
    and "item \<in> set (take batchSize (drop (b * batchSize) needsAI))"
    and "parseFails env (chatBatch env (k + b)
           (map itemNormalized (take batchSize (drop (b * batchSize) needsAI))))"
  shows "elemAt (fst (runBatches env k needsAI res)) (itemIndex item)
           = Some (fallbackResult (itemNormalized item))
       \<or> (snd (runBatches env k needsAI res)
          \<and> elemAt (fst (runBatches env k needsAI res)) (itemIndex item)
              = elemAt res (itemIndex item))"
  using assms
proof (induction env k needsAI res arbitrary: b rule: runBatches.induct)
  case (1 env k needsAI res)
  let ?batch = "take batchSize needsAI" and ?rest = "drop batchSize needsAI"
  let ?reply = "chatBatch env k (map itemNormalized ?batch)"
  note dist = distinct_take_drop_idx [OF "1.prems"(1), where n = batchSize]
  from "1.prems"(2) have ne: "needsAI \<noteq> []" by auto
  show ?case
  proof (cases b)
    case 0
    with "1.prems" have inb: "item \<in> set ?batch" and pf: "parseFails env ?reply" by simp_all
    from pf ne have eq: "runBatches env k needsAI res
        = runBatches env (Suc k) ?rest (fillFallback ?batch res)"
      by (subst runBatches.simps) (auto simp: parseFails_def split: chat_reply.splits)
    have "elemAt (fst (runBatches env k needsAI res)) (itemIndex item)
        = elemAt (fillFallback ?batch res) (itemIndex item)"
      unfolding eq by (rule runBatches_other [OF dist(3) [OF inb]])
    also have "\<dots> = Some (fallbackResult (itemNormalized item))"
      by (rule fillFallback_item [OF dist(1) inb])
    finally show ?thesis by simp
  next
    case (Suc b')
    have dd: "drop (Suc b' * batchSize) needsAI = drop (b' * batchSize) ?rest"
      by (simp add: add.commute)
    from "1.prems"(2) have inr: "item \<in> set (take batchSize (drop (b' * batchSize) ?rest))"
      unfolding Suc dd .
    then have inrest: "item \<in> set ?rest" by (meson in_set_takeD in_set_dropD)
    from "1.prems"(3) have pf: "parseFails env (chatBatch env (Suc k + b')
           (map itemNormalized (take batchSize (drop (b' * batchSize) ?rest))))"
      unfolding Suc dd by simp
    note nb = dist(4) [OF inrest]
    show ?thesis
    proof (cases ?reply)
      case Threw
      with ne show ?thesis by (subst (1 2 3) runBatches.simps) simp
    next
      case Malformed
      with ne have eq: "runBatches env k needsAI res
          = runBatches env (Suc k) ?rest (fillFallback ?batch res)"
        by (subst runBatches.simps) simp
      from "1.IH"(1) [OF ne refl Malformed dist(2) inr pf]
      show ?thesis unfolding eq by (simp add: fillFallback_other [OF nb])
    next
      case (Content c)
      show ?thesis
      proof (cases "jsonParse env (contentOr c ''[]'')")
        case None
        with ne Content have eq: "runBatches env k needsAI res
            = runBatches env (Suc k) ?rest (fillFallback ?batch res)"
          by (subst runBatches.simps) simp
        from "1.IH"(2) [OF ne refl Content None dist(2) inr pf]
        show ?thesis unfolding eq by (simp add: fillFallback_other [OF nb])
      next
        case (Some cats)
        with ne Content have eq: "runBatches env k needsAI res
            = runBatches env (Suc k) ?rest (fillParsed cats 0 ?batch res)"
          by (subst runBatches.simps) simp
        from "1.IH"(3) [OF ne refl Content Some dist(2) inr pf]
        show ?thesis unfolding eq by (simp add: fillParsed_other [OF nb])
      qed
    qed
  qed
qed

lemma batchCategorize_parse_failure:
  assumes "item \<in> set (take batchSize (drop (b * batchSize)
                     (snd (firstPass rules 0 descriptions ([], [])))))"
    and "parseFails env (chatBatch env b
           (map itemNormalized (take batchSize (drop (b * batchSize)
              (snd (firstPass rules 0 descriptions ([], [])))))))"
  shows "itemIndex item < length descriptions
       \<and> batchCategorize env rules descriptions ! itemIndex item
           = Some (fallbackResult (itemNormalized item))"
proof -
  let ?st = "firstPass rules 0 descriptions ([], [])"
  let ?rb = "runBatches env 0 (snd ?st) (fst ?st)"
  let ?i = "itemIndex item"
  let ?fb = "Some (fallbackResult (itemNormalized item))"
  from assms(1) have mem: "item \<in> set (snd ?st)"
    by (meson in_set_takeD in_set_dropD)
  have inv: "\<forall>b\<in>set (snd ?st). itemIndex b < length descriptions"
    "distinct (map itemIndex (snd ?st))"
    using firstPass_inv [where st = "([], [])" and i = 0 and rules = rules and ds = descriptions]
    by simp_all
  have unfilled: "elemAt (fst ?st) ?i = None"
    using firstPass_unfilled [where st = "([], [])" and i = 0 and rules = rules
        and ds = descriptions] mem by simp
  from inv(1) mem have lt: "?i < length descriptions" by blast
  have a: "elemAt (fillFallback (snd ?st) (fst ?st)) ?i = ?fb"
    by (rule fillFallback_item [OF inv(2) mem])
  from runBatches_parse_failure [OF inv(2) assms(1), where env = env and k = 0 and res = "fst ?st"]
    assms(2)
  have "elemAt (fst ?rb) ?i = ?fb \<or> (snd ?rb \<and> elemAt (fst ?rb) ?i = None)"
    using unfilled by simp
  then have b: "elemAt (if snd ?rb then fillMissing (snd ?st) (fst ?rb) else fst ?rb) ?i = ?fb"
  proof
    assume f: "elemAt (fst ?rb) ?i = ?fb"
    then show ?thesis using fillMissing_keeps [where res = "fst ?rb" and j = ?i and items = "snd ?st"] by simp
  next
    assume "snd ?rb \<and> elemAt (fst ?rb) ?i = None"
    then show ?thesis using fillMissing_item [OF inv(2) mem, where res = "fst ?rb"] by simp
  qed
  from a b have "elemAt (batchCategorize env rules descriptions) ?i = ?fb"
    unfolding batchCategorize_cases by simp
  moreover have "?i < length (batchCategorize env rules descriptions)"
    using lt batchCategorize_length [of env rules descriptions] by simp
  ultimately show ?thesis using lt by (simp add: elemAt_nth)
qed

text \<open>
  C6. The AI fallback never raises. \<open>categorizeByAI\<close> answers with category \<open>Other\<close>,
  confidence \<open>Low\<close>, method \<open>Fallback\<close> and \<open>suggestRule\<close> set whenever the key is
  missing, the call rejects or the response has no message. In \<open>batchCategorize\<close>, every
  item of a batch whose reply does not parse gets that same result at its index, whatever
  happens to the other batches.
\<close>

theorem ai_failure_degrades:
  "(\<not> apiKey env \<or> chatSingle env description normalized = Threw
      \<or> chatSingle env description normalized = Malformed
    \<longrightarrow> categorizeByAI env description normalized =
          \<lparr>category = ''Other'', confidence = Low, via_method = Fallback,
           normalizedMerchant = normalized, suggestRule = Some True\<rparr>)
   \<and> (item \<in> set (take batchSize (drop (b * batchSize)
                     (snd (firstPass rules 0 descriptions ([], [])))))
      \<and> parseFails env (chatBatch env b
           (map itemNormalized (take batchSize (drop (b * batchSize)
              (snd (firstPass rules 0 descriptions ([], [])))))))
    \<longrightarrow> itemIndex item < length descriptions
        \<and> batchCategorize env rules descriptions ! itemIndex item =
            Some \<lparr>category = ''Other'', confidence = Low, via_method = Fallback,
                  normalizedMerchant = itemNormalized item, suggestRule = Some True\<rparr>)"
proof (intro conjI impI)
  assume "\<not> apiKey env \<or> chatSingle env description normalized = Threw
      \<or> chatSingle env description normalized = Malformed"
  then show "categorizeByAI env description normalized =
          \<lparr>category = ''Other'', confidence = Low, via_method = Fallback,
           normalizedMerchant = normalized, suggestRule = Some True\<rparr>"
    by (auto simp: categorizeByAI_def fallbackResult_def)
next
  assume a: "item \<in> set (take batchSize (drop (b * batchSize)
                     (snd (firstPass rules 0 descriptions ([], [])))))
      \<and> parseFails env (chatBatch env b
           (map itemNormalized (take batchSize (drop (b * batchSize)
              (snd (firstPass rules 0 descriptions ([], [])))))))"
  from batchCategorize_parse_failure [OF conjunct1 [OF a] conjunct2 [OF a]]
  show "itemIndex item < length descriptions" by simp
  from batchCategorize_parse_failure [OF conjunct1 [OF a] conjunct2 [OF a]]
  show "batchCategorize env rules descriptions ! itemIndex item =
            Some \<lparr>category = ''Other'', confidence = Low, via_method = Fallback,
                  normalizedMerchant = itemNormalized item, suggestRule = Some True\<rparr>"
    by (simp add: fallbackResult_def)
qed

theorem ai_failure_degrades_witness:
  "categorizeByAI \<lparr>apiKey = False, chatSingle = (\<lambda>d n. Content (Some ''Dining'')),
       chatBatch = (\<lambda>k ns. Threw), jsonParse = (\<lambda>c. None)\<rparr> ''sq *zzz'' ''ZZZ''
     = \<lparr>category = ''Other'', confidence = Low, via_method = Fallback,
        normalizedMerchant = ''ZZZ'', suggestRule = Some True\<rparr>
   \<and> batchCategorize \<lparr>apiKey = True, chatSingle = (\<lambda>d n. Threw),
       chatBatch = (\<lambda>k ns. Content (Some ''Sure! Here you go'')), jsonParse = (\<lambda>c. None)\<rparr>
       [] [''ZZZ'', ''STARBUCKS'', ''QQQ''] ! 2
     = Some \<lparr>category = ''Other'', confidence = Low, via_method = Fallback,
             normalizedMerchant = ''QQQ'', suggestRule = Some True\<rparr>"
proof -
  let ?e1 = "\<lparr>apiKey = False, chatSingle = (\<lambda>d n. Content (Some ''Dining'')),
       chatBatch = (\<lambda>k ns. Threw), jsonParse = (\<lambda>c. None)\<rparr>"
  let ?e2 = "\<lparr>apiKey = True, chatSingle = (\<lambda>d n. Threw),
       chatBatch = (\<lambda>k ns. Content (Some ''Sure! Here you go'')), jsonParse = (\<lambda>c. None)\<rparr>"
  let ?item = "\<lparr>itemIndex = 2, itemDescription = ''QQQ'', itemNormalized = ''QQQ''\<rparr>"
  let ?ds = "[''ZZZ'', ''STARBUCKS'', ''QQQ'']"
  have fp: "snd (firstPass [] 0 ?ds ([], []))
      = [\<lparr>itemIndex = 0, itemDescription = ''ZZZ'', itemNormalized = ''ZZZ''\<rparr>, ?item]"
    by code_simp
  have m: "?item \<in> set (take batchSize (drop (0 * batchSize) (snd (firstPass [] 0 ?ds ([], [])))))"
    unfolding fp by (simp add: batchSize_def)
  have p: "parseFails ?e2 (chatBatch ?e2 0
           (map itemNormalized (take batchSize (drop (0 * batchSize)
              (snd (firstPass [] 0 ?ds ([], [])))))))"
    by (simp add: parseFails_def contentOr_def)
  show ?thesis
    using ai_failure_degrades [of ?e1 "''sq *zzz''" "''ZZZ''" ?item 0 "[]" ?ds]
      ai_failure_degrades [of ?e2 "''sq *zzz''" "''ZZZ''" ?item 0 "[]" ?ds] m p
    by simp
qed

section \<open>Batch and single categorisation\<close>

lemma runBatches_stub:
  assumes "distinct (map itemIndex needsAI)"
    and "\<forall>k ns. \<exists>c. chatBatch env k ns = Content c
           \<and> jsonParse env (contentOr c ''[]'') = Some (map (\<lambda>n. Some (label n)) ns)"
    and "item \<in> set needsAI"
  shows "\<not> snd (runBatches env k needsAI res)
       \<and> elemAt (fst (runBatches env k needsAI res)) (itemIndex item)
           = Some (aiResult (validCategory (Some (label (itemNormalized item))))
                     (itemNormalized item))"
  using assms
proof (induction env k needsAI res arbitrary: item rule: runBatches.induct)
  case (1 env k needsAI res)
  let ?batch = "take batchSize needsAI" and ?rest = "drop batchSize needsAI"
  let ?cats = "map (\<lambda>n. Some (label n)) (map itemNormalized ?batch)"
  note dist = distinct_take_drop_idx [OF "1.prems"(1), where n = batchSize]
  from "1.prems"(3) have ne: "needsAI \<noteq> []" by auto
  from "1.prems"(2) obtain c where c: "chatBatch env k (map itemNormalized ?batch) = Content c"
    "jsonParse env (contentOr c ''[]'') = Some ?cats" by blast
  with ne have eq: "runBatches env k needsAI res
      = runBatches env (Suc k) ?rest (fillParsed ?cats 0 ?batch res)"
    by (subst runBatches.simps) (simp add: Let_def)
  show ?case
  proof (cases "item \<in> set ?rest")
    case True
    from "1.IH"(3) [OF ne refl c dist(2) "1.prems"(2) True]
    show ?thesis unfolding eq .
  next
    case False
    with in_take_or_drop [OF "1.prems"(3), of batchSize] have inb: "item \<in> set ?batch" by blast
    then obtain q where q: "q < length ?batch" "?batch ! q = item"
      by (auto simp: in_set_conv_nth)
    have nothrow: "\<not> snd (runBatches env (Suc k) ?rest (fillParsed ?cats 0 ?batch res))"
    proof (cases "?rest = []")
      case True
      then show ?thesis by (subst runBatches.simps) simp
    next
      case False
      then obtain x where "x \<in> set ?rest" by (cases ?rest) auto
      from "1.IH"(3) [OF ne refl c dist(2) "1.prems"(2) this] show ?thesis by simp
    qed
    have "elemAt (fst (runBatches env k needsAI res)) (itemIndex item)
        = elemAt (fillParsed ?cats 0 ?batch res) (itemIndex item)"
      unfolding eq by (rule runBatches_other [OF dist(3) [OF inb]])
    also have "\<dots> = Some (aiResult (validCategory (elemAt ?cats (0 + q)))
                         (itemNormalized (?batch ! q)))"
      using fillParsed_item [OF dist(1) q(1), of ?cats 0 res] q(2) by simp
    also have "elemAt ?cats (0 + q) = Some (label (itemNormalized item))"
      using q by (simp add: elemAt_def)
    finally show ?thesis using nothrow q(2) unfolding eq by simp
  qed
qed


lemma firstPass_pattern_not_needed:
  assumes "j < length descriptions"
    and "categorizeByPattern rules (descriptions ! j) = Some r"
  shows "j \<notin> itemIndex ` set (snd (firstPass rules 0 descriptions ([], [])))"
proof
  let ?st = "firstPass rules 0 descriptions ([], [])"
  assume "j \<in> itemIndex ` set (snd ?st)"
  then obtain b where b: "b \<in> set (snd ?st)" "itemIndex b = j" by auto
  have "elemAt (fst ?st) (itemIndex b) = None"
    using firstPass_unfilled [where st = "([], [])" and i = 0 and rules = rules
        and ds = descriptions] b(1) by simp
  moreover have "elemAt (fst ?st) j = Some r"
    using firstPass_cover [OF assms(1), where rules = rules and i = 0 and st = "([], [])"]
      assms(2) by simp
  ultimately show False using b(2) by simp
qed

lemma batchCategorize_pattern:
  assumes "j < length descriptions"
    and "categorizeByPattern rules (descriptions ! j) = Some r"
  shows "batchCategorize env rules descriptions ! j = Some r"
proof -
  let ?st = "firstPass rules 0 descriptions ([], [])"
  let ?rb = "runBatches env 0 (snd ?st) (fst ?st)"
  note nn = firstPass_pattern_not_needed [OF assms]
  have f: "elemAt (fst ?st) j = Some r"
    using firstPass_cover [OF assms(1), where rules = rules and i = 0 and st = "([], [])"]
      assms(2) by simp
  have "elemAt (batchCategorize env rules descriptions) j = Some r"
    unfolding batchCategorize_cases
    by (simp add: fillFallback_other [OF nn] fillMissing_other [OF nn]
          runBatches_other [OF nn] f)
  then show ?thesis
    using assms(1) batchCategorize_length [of env rules descriptions] by (simp add: elemAt_nth)
qed

lemma single_matches_entry:
  assumes "chatSingle env d n = Content (Some c)"
  shows "category (categorizeByAI env d n)
       = (if apiKey env then validCategory (Some (trim c)) else ''Other'')"
  using assms
  by (auto simp: categorizeByAI_def fallbackResult_def aiResult_def validCategory_def
        CATEGORIES_def Let_def)

text \<open>
  Where the two paths do agree. Let the stubbed model be a labelling of normalised
  merchants: the single call answers a merchant with its label, possibly surrounded by
  white space, and the batch call answers a list of merchants with an array that parses
  to their labels, in order, without any white space around them. Then, for every list of
  descriptions, the category at each index of the batch result is the category that
  \<open>smartCategorize\<close> gives that description. Descriptions that a rule or a pattern
  decides take the same path in both.
\<close>

lemma batch_agrees_with_single:
  assumes "\<forall>d\<in>set descriptions. \<exists>c. chatSingle env d (normalizeMerchant d) = Content (Some c)
             \<and> trim c = label (normalizeMerchant d)"
    and "\<forall>k ns. \<exists>c. chatBatch env k ns = Content c
           \<and> jsonParse env (contentOr c ''[]'') = Some (map (\<lambda>n. Some (label n)) ns)"
  shows "map (map_option category) (batchCategorize env rules descriptions)
       = map (\<lambda>d. Some (category (smartCategorize env rules d))) descriptions"
proof (rule nth_equalityI)
  show "length (map (map_option category) (batchCategorize env rules descriptions))
      = length (map (\<lambda>d. Some (category (smartCategorize env rules d))) descriptions)"
    by (simp add: batchCategorize_length)
next
  fix j
  assume "j < length (map (map_option category) (batchCategorize env rules descriptions))"
  then have j: "j < length descriptions" by (simp add: batchCategorize_length)
  let ?d = "descriptions ! j"
  let ?st = "firstPass rules 0 descriptions ([], [])"
  let ?rb = "runBatches env 0 (snd ?st) (fst ?st)"
  let ?item = "\<lparr>itemIndex = j, itemDescription = ?d, itemNormalized = normalizeMerchant ?d\<rparr>"
  have "map_option category (batchCategorize env rules descriptions ! j)
      = Some (category (smartCategorize env rules ?d))"
  proof (cases "categorizeByPattern rules ?d")
    case (Some r)
    then show ?thesis
      using batchCategorize_pattern [OF j Some, of env] by (simp add: smartCategorize_def)
  next
    case None
    from j have "?d \<in> set descriptions" by simp
    with assms(1) obtain c where c: "chatSingle env ?d (normalizeMerchant ?d) = Content (Some c)"
      "trim c = label (normalizeMerchant ?d)" by blast
    have single: "category (smartCategorize env rules ?d)
        = (if apiKey env then validCategory (Some (label (normalizeMerchant ?d))) else ''Other'')"
      using None single_matches_entry [OF c(1)] c(2) by (simp add: smartCategorize_def)
    from None firstPass_cover [OF j, where rules = rules and i = 0 and st = "([], [])"]
    have m: "?item \<in> set (snd ?st)" by simp
    then have ne: "snd ?st \<noteq> []" by auto
    have dist: "distinct (map itemIndex (snd ?st))"
      using firstPass_inv [where st = "([], [])" and i = 0 and rules = rules
          and ds = descriptions] by simp
    have "elemAt (batchCategorize env rules descriptions) j
        = Some (if apiKey env
                then aiResult (validCategory (Some (label (normalizeMerchant ?d))))
                       (normalizeMerchant ?d)
                else fallbackResult (normalizeMerchant ?d))"
    proof (cases "apiKey env")
      case True
      from runBatches_stub [OF dist assms(2) m, of 0 "fst ?st"] True ne
      show ?thesis unfolding batchCategorize_cases by simp
    next
      case False
      with fillFallback_item [OF dist m, of "fst ?st"]
      show ?thesis unfolding batchCategorize_cases by simp
    qed
    then have "batchCategorize env rules descriptions ! j
        = Some (if apiKey env
                then aiResult (validCategory (Some (label (normalizeMerchant ?d))))
                       (normalizeMerchant ?d)
                else fallbackResult (normalizeMerchant ?d))"
      using j batchCategorize_length [of env rules descriptions] by (simp add: elemAt_nth)
    with single show ?thesis by (simp add: aiResult_def fallbackResult_def)
  qed
  with j show "map (map_option category) (batchCategorize env rules descriptions) ! j
      = map (\<lambda>d. Some (category (smartCategorize env rules d))) descriptions ! j"
    by (simp add: batchCategorize_length)
qed


lemma batch_agrees_with_single_witness:
  "map (map_option category)
     (batchCategorize
        \<lparr>apiKey = True, chatSingle = (\<lambda>d n. Content (Some '' Dining '')),
         chatBatch = (\<lambda>k ns. Content (Some (CHR ''['' # replicate (length ns) CHR ''D''))),
         jsonParse = (\<lambda>c. Some (replicate (length c - 1) (Some ''Dining'')))\<rparr>
        [] [''ZZZ'', ''SQ *QQQ''])
   = [Some ''Dining'', Some ''Dining'']
   \<and> categorizeByPattern [] ''ZZZ'' = None \<and> categorizeByPattern [] ''SQ *QQQ'' = None"
proof -
  let ?env = "\<lparr>apiKey = True, chatSingle = (\<lambda>d n. Content (Some '' Dining '')),
         chatBatch = (\<lambda>k ns. Content (Some (CHR ''['' # replicate (length ns) CHR ''D''))),
         jsonParse = (\<lambda>c. Some (replicate (length c - 1) (Some ''Dining'')))\<rparr>"
  let ?ds = "[''ZZZ'', ''SQ *QQQ'']"
  have t: "trim '' Dining '' = ''Dining''" by code_simp
  have h1: "\<forall>d\<in>set ?ds. \<exists>c. chatSingle ?env d (normalizeMerchant d) = Content (Some c)
             \<and> trim c = (\<lambda>n. ''Dining'') (normalizeMerchant d)"
    using t by simp
  have h2: "\<forall>k ns. \<exists>c. chatBatch ?env k ns = Content c
           \<and> jsonParse ?env (contentOr c ''[]'') = Some (map (\<lambda>n. Some ((\<lambda>n. ''Dining'') n)) ns)"
    by (simp add: contentOr_def map_replicate_const)
  have p: "categorizeByPattern [] ''ZZZ'' = None" "categorizeByPattern [] ''SQ *QQQ'' = None"
    by code_simp+
  have s: "category (smartCategorize ?env [] ''ZZZ'') = ''Dining''"
    "category (smartCategorize ?env [] ''SQ *QQQ'') = ''Dining''"
    using t by (simp_all add: smartCategorize_def p categorizeByAI_def aiResult_def
        CATEGORIES_def)
  from batch_agrees_with_single [OF h1 h2, of "[]"] s p show ?thesis by simp
qed

text \<open>
  C5. The claim says that, for a deterministic stub of the hosted model, the category at
  each index of the batch result is the category single categorisation gives that
  description. \<open>categorizeByAI\<close> trims the reply before it looks the category up
  (\<open>content?.trim()\<close>); \<open>batchCategorize\<close> looks a parsed entry up as it stands
  (\<open>CATEGORIES.includes(categories[j])\<close>). Take the stub that answers the label \<open>Dining\<close>
  with a space on either side, as the text of the single reply and as the one entry of
  the JSON array of the batch reply, and the description \<open>ZZZ\<close>, which no rule and no
  pattern decides. Single categorisation gives \<open>Dining\<close> with confidence medium; batch
  categorisation gives \<open>Other\<close> with confidence low.
\<close>

theorem batch_differs_from_single:
  "categorizeByPattern [] ''ZZZ'' = None
   \<and> category (smartCategorize
        \<lparr>apiKey = True, chatSingle = (\<lambda>d n. Content (Some '' Dining '')),
         chatBatch = (\<lambda>k ns. Content (Some (''['' @ [CHR 0x22] @ '' Dining '' @ [CHR 0x22] @ '']''))),
         jsonParse = (\<lambda>c. if c = ''['' @ [CHR 0x22] @ '' Dining '' @ [CHR 0x22] @ '']''
                          then Some [Some '' Dining ''] else None)\<rparr>
        [] ''ZZZ'') = ''Dining''
   \<and> map (map_option (\<lambda>r. (category r, confidence r, via_method r)))
       (batchCategorize
        \<lparr>apiKey = True, chatSingle = (\<lambda>d n. Content (Some '' Dining '')),
         chatBatch = (\<lambda>k ns. Content (Some (''['' @ [CHR 0x22] @ '' Dining '' @ [CHR 0x22] @ '']''))),
         jsonParse = (\<lambda>c. if c = ''['' @ [CHR 0x22] @ '' Dining '' @ [CHR 0x22] @ '']''
                          then Some [Some '' Dining ''] else None)\<rparr>
        [] [''ZZZ''])
     = [Some (''Other'', Low, AI)]"
  by code_simp

section \<open>Batch categorisation with its reads of the rule table\<close>

lemma firstPassAsync_resolved:
  "\<forall>j<length ds. reads (i + j) = None \<Longrightarrow>
   firstPassAsync reads rules i ds st = Inr (firstPass rules i ds st)"
proof (induction ds arbitrary: i st)
  case Nil
  then show ?case by simp
next
  case (Cons d ds)
  from Cons.prems have r0: "reads i = None" by force
  have "\<forall>j<length ds. reads (Suc i + j) = None"
  proof (intro allI impI)
    fix j assume "j < length ds"
    then have "Suc j < length (d # ds)" by simp
    with Cons.prems have "reads (i + Suc j) = None" by blast
    then show "reads (Suc i + j) = None" by simp
  qed
  from Cons.IH [OF this] r0 show ?case
    by (simp add: categorizeByPatternAsync_def getCategoryRules_def)
qed

lemma firstPassAsync_rejected:
  "j < length ds \<Longrightarrow> reads (i + j) = Some e \<Longrightarrow> \<forall>j'<j. reads (i + j') = None \<Longrightarrow>
   firstPassAsync reads rules i ds st = Inl e"
proof (induction ds arbitrary: i j st)
  case Nil
  then show ?case by simp
next
  case (Cons d ds)
  show ?case
  proof (cases j)
    case 0
    with Cons.prems(2) show ?thesis
      by (simp add: categorizeByPatternAsync_def getCategoryRules_def)
  next
    case (Suc j0)
    with Cons.prems(3) have r0: "reads i = None" by force
    from Suc Cons.prems(1) have a: "j0 < length ds" by simp
    from Suc Cons.prems(2) have b: "reads (Suc i + j0) = Some e" by simp
    have c: "\<forall>j'<j0. reads (Suc i + j') = None"
    proof (intro allI impI)
      fix j' assume "j' < j0"
      then have "Suc j' < j" using Suc by simp
      with Cons.prems(3) have "reads (i + Suc j') = None" by blast
      then show "reads (Suc i + j') = None" by simp
    qed
    from Cons.IH [OF a b c] r0 show ?thesis
      by (simp add: categorizeByPatternAsync_def getCategoryRules_def)
  qed
qed

lemma batchCategorizeAsync_resolved:
  assumes "\<forall>j<length descriptions. reads j = None"
  shows "batchCategorizeAsync env reads rules descriptions
       = Inr (batchCategorize env rules descriptions)"
proof -
  from assms have "\<forall>j<length descriptions. reads (0 + j) = None" by simp
  from firstPassAsync_resolved [OF this] show ?thesis
    by (simp add: batchCategorizeAsync_def batchCategorize_def Let_def)
qed

lemma batchCategorizeAsync_rejected:
  assumes "j < length descriptions" and "reads j = Some e" and "\<forall>i<j. reads i = None"
  shows "batchCategorizeAsync env reads rules descriptions = Inl e"
proof -
  from assms have "reads (0 + j) = Some e" "\<forall>j'<j. reads (0 + j') = None" by simp_all
  from firstPassAsync_rejected [OF assms(1) this] show ?thesis
    by (simp add: batchCategorizeAsync_def)
qed

lemma firstPass_needs:
  "snd (firstPass rules i ds st) =
     snd st @ map (\<lambda>j. \<lparr>itemIndex = i + j, itemDescription = ds ! j,
                          itemNormalized = normalizeMerchant (ds ! j)\<rparr>)
                (filter (\<lambda>j. categorizeByPattern rules (ds ! j) = None) [0..<length ds])"
proof (induction ds arbitrary: i st)
  case Nil
  then show ?case by simp
next
  case (Cons d ds)
  have up: "[0..<length (d # ds)] = 0 # map Suc [0..<length ds]"
    by (simp add: upt_conv_Cons map_Suc_upt del: upt_Suc)
  show ?case
    unfolding firstPass_step Cons.IH up
    by (cases "categorizeByPattern rules d") (simp_all add: filter_map comp_def)
qed

lemma runBatches_threw_before:
  assumes "distinct (map itemIndex needsAI)"
    and "item \<in> set (take batchSize (drop (b * batchSize) needsAI))"
    and "b' \<le> b"
    and "chatBatch env (k + b')
           (map itemNormalized (take batchSize (drop (b' * batchSize) needsAI))) = Threw"
  shows "snd (runBatches env k needsAI res)
       \<and> elemAt (fst (runBatches env k needsAI res)) (itemIndex item)
           = elemAt res (itemIndex item)"
  using assms
proof (induction env k needsAI res arbitrary: b b' rule: runBatches.induct)
  case (1 env k needsAI res)
  let ?batch = "take batchSize needsAI" and ?rest = "drop batchSize needsAI"
  let ?reply = "chatBatch env k (map itemNormalized ?batch)"
  note dist = distinct_take_drop_idx [OF "1.prems"(1), where n = batchSize]
  from "1.prems"(2) have ne: "needsAI \<noteq> []" by auto
  show ?case
  proof (cases "?reply = Threw")
    case True
    with ne show ?thesis by (subst (1 2) runBatches.simps) simp
  next
    case False
    with "1.prems"(4) have "b' \<noteq> 0" by (cases b') auto
    then obtain c' where c': "b' = Suc c'" by (cases b') auto
    with "1.prems"(3) obtain c where c: "b = Suc c" "c' \<le> c" by (cases b) auto
    have dd: "\<And>m. drop (Suc m * batchSize) needsAI = drop (m * batchSize) ?rest"
      by (simp add: add.commute)
    from "1.prems"(2) have inr: "item \<in> set (take batchSize (drop (c * batchSize) ?rest))"
      unfolding c dd .
    then have inrest: "item \<in> set ?rest" by (meson in_set_takeD in_set_dropD)
    from "1.prems"(4) have th: "chatBatch env (Suc k + c')
           (map itemNormalized (take batchSize (drop (c' * batchSize) ?rest))) = Threw"
      unfolding c' dd by simp
    note nb = dist(4) [OF inrest]
    show ?thesis
    proof (cases ?reply)
      case Threw
      with False show ?thesis by simp
    next
      case Malformed
      with ne have eq: "runBatches env k needsAI res
          = runBatches env (Suc k) ?rest (fillFallback ?batch res)"
        by (subst runBatches.simps) simp
      from "1.IH"(1) [OF ne refl Malformed dist(2) inr c(2) th]
      show ?thesis unfolding eq by (simp add: fillFallback_other [OF nb])
    next
      case (Content cnt)
      show ?thesis
      proof (cases "jsonParse env (contentOr cnt ''[]'')")
        case None
        with ne Content have eq: "runBatches env k needsAI res
            = runBatches env (Suc k) ?rest (fillFallback ?batch res)"
          by (subst runBatches.simps) simp
        from "1.IH"(2) [OF ne refl Content None dist(2) inr c(2) th]
        show ?thesis unfolding eq by (simp add: fillFallback_other [OF nb])
      next
        case (Some cats)
        with ne Content have eq: "runBatches env k needsAI res
            = runBatches env (Suc k) ?rest (fillParsed cats 0 ?batch res)"
          by (subst runBatches.simps) simp
        from "1.IH"(3) [OF ne refl Content Some dist(2) inr c(2) th]
        show ?thesis unfolding eq by (simp add: fillParsed_other [OF nb])
      qed
    qed
  qed
qed

lemma runBatches_parsed:
  assumes "distinct (map itemIndex needsAI)"
    and "q < length (take batchSize (drop (b * batchSize) needsAI))"
    and "\<forall>b'\<le>b. chatBatch env (k + b')
           (map itemNormalized (take batchSize (drop (b' * batchSize) needsAI))) \<noteq> Threw"
    and "chatBatch env (k + b)
           (map itemNormalized (take batchSize (drop (b * batchSize) needsAI))) = Content cnt"
    and "jsonParse env (contentOr cnt ''[]'') = Some cats"
  shows "elemAt (fst (runBatches env k needsAI res))
           (itemIndex (take batchSize (drop (b * batchSize) needsAI) ! q))
       = Some (aiResult (validCategory (elemAt cats q))
                 (itemNormalized (take batchSize (drop (b * batchSize) needsAI) ! q)))"
  using assms
proof (induction env k needsAI res arbitrary: b rule: runBatches.induct)
  case (1 env k needsAI res)
  let ?batch = "take batchSize needsAI" and ?rest = "drop batchSize needsAI"
  let ?reply = "chatBatch env k (map itemNormalized ?batch)"
  note dist = distinct_take_drop_idx [OF "1.prems"(1), where n = batchSize]
  from "1.prems"(2) have ne: "needsAI \<noteq> []" by auto
  show ?case
  proof (cases b)
    case 0
    with "1.prems" have q: "q < length ?batch" and r: "?reply = Content cnt" by simp_all
    from q have inb: "?batch ! q \<in> set ?batch" by (rule nth_mem)
    from r "1.prems"(5) ne have eq: "runBatches env k needsAI res
        = runBatches env (Suc k) ?rest (fillParsed cats 0 ?batch res)"
      by (subst runBatches.simps) simp
    have "elemAt (fst (runBatches env k needsAI res)) (itemIndex (?batch ! q))
        = elemAt (fillParsed cats 0 ?batch res) (itemIndex (?batch ! q))"
      unfolding eq by (rule runBatches_other [OF dist(3) [OF inb]])
    also have "\<dots> = Some (aiResult (validCategory (elemAt cats (0 + q)))
                         (itemNormalized (?batch ! q)))"
      by (rule fillParsed_item [OF dist(1) q])
    finally show ?thesis unfolding 0 by simp
  next
    case (Suc c)
    have dd: "\<And>m. drop (Suc m * batchSize) needsAI = drop (m * batchSize) ?rest"
      by (simp add: add.commute)
    let ?bc = "take batchSize (drop (c * batchSize) ?rest)"
    from "1.prems"(2) have q: "q < length ?bc" unfolding Suc dd .
    from "1.prems"(3) have nt0: "?reply \<noteq> Threw" by force
    have nt: "\<forall>b'\<le>c. chatBatch env (Suc k + b')
           (map itemNormalized (take batchSize (drop (b' * batchSize) ?rest))) \<noteq> Threw"
    proof (intro allI impI)
      fix b' assume "b' \<le> c"
      then have "Suc b' \<le> b" using Suc by simp
      with "1.prems"(3) have "chatBatch env (k + Suc b')
           (map itemNormalized (take batchSize (drop (Suc b' * batchSize) needsAI))) \<noteq> Threw"
        by blast
      then show "chatBatch env (Suc k + b')
           (map itemNormalized (take batchSize (drop (b' * batchSize) ?rest))) \<noteq> Threw"
        unfolding dd by simp
    qed
    from "1.prems"(4) have r: "chatBatch env (Suc k + c) (map itemNormalized ?bc) = Content cnt"
      unfolding Suc dd by simp
    show ?thesis
    proof (cases ?reply)
      case Threw
      with nt0 show ?thesis by simp
    next
      case Malformed
      with ne have eq: "runBatches env k needsAI res
          = runBatches env (Suc k) ?rest (fillFallback ?batch res)"
        by (subst runBatches.simps) simp
      from "1.IH"(1) [OF ne refl Malformed dist(2) q nt r "1.prems"(5)]
      show ?thesis unfolding eq Suc dd .
    next
      case (Content cnt0)
      show ?thesis
      proof (cases "jsonParse env (contentOr cnt0 ''[]'')")
        case None
        with ne Content have eq: "runBatches env k needsAI res
            = runBatches env (Suc k) ?rest (fillFallback ?batch res)"
          by (subst runBatches.simps) simp
        from "1.IH"(2) [OF ne refl Content None dist(2) q nt r "1.prems"(5)]
        show ?thesis unfolding eq Suc dd .
      next
        case (Some cats0)
        with ne Content have eq: "runBatches env k needsAI res
            = runBatches env (Suc k) ?rest (fillParsed cats0 0 ?batch res)"
          by (subst runBatches.simps) simp
        from "1.IH"(3) [OF ne refl Content Some dist(2) q nt r "1.prems"(5)]
        show ?thesis unfolding eq Suc dd .
      qed
    qed
  qed
qed


lemma batchCategorize_item:
  fixes env rules descriptions
  defines "needs \<equiv> snd (firstPass rules 0 descriptions ([], []))"
  defines "batchOf \<equiv> \<lambda>b. take batchSize (drop (b * batchSize) needs)"
  defines "replyOf \<equiv> \<lambda>b. chatBatch env b (map itemNormalized (batchOf b))"
  assumes q: "q < length (batchOf b)"
  shows "batchCategorize env rules descriptions ! itemIndex (batchOf b ! q) =
     Some (if \<not> apiKey env \<or> (\<exists>b'\<le>b. replyOf b' = Threw)
           then fallbackResult (itemNormalized (batchOf b ! q))
           else case replyOf b of
                  Content c \<Rightarrow>
                    (case jsonParse env (contentOr c ''[]'') of
                       Some cats \<Rightarrow> aiResult (validCategory (elemAt cats q))
                                     (itemNormalized (batchOf b ! q))
                     | None \<Rightarrow> fallbackResult (itemNormalized (batchOf b ! q)))
                | _ \<Rightarrow> fallbackResult (itemNormalized (batchOf b ! q)))"
proof -
  let ?st = "firstPass rules 0 descriptions ([], [])"
  let ?rb = "runBatches env 0 needs (fst ?st)"
  let ?item = "batchOf b ! q"
  let ?i = "itemIndex ?item"
  let ?fb = "Some (fallbackResult (itemNormalized ?item))"
  let ?out = "batchCategorize env rules descriptions"
  from q have memb: "?item \<in> set (batchOf b)" by (rule nth_mem)
  then have mem: "?item \<in> set needs"
    unfolding batchOf_def by (meson in_set_takeD in_set_dropD)
  then have ne: "needs \<noteq> []" by auto
  have inv: "\<forall>b\<in>set needs. itemIndex b < length descriptions"
    "distinct (map itemIndex needs)"
    using firstPass_inv [where st = "([], [])" and i = 0 and rules = rules and ds = descriptions]
    unfolding needs_def by simp_all
  have unfilled: "elemAt (fst ?st) ?i = None"
    using firstPass_unfilled [where st = "([], [])" and i = 0 and rules = rules
        and ds = descriptions] mem unfolding needs_def by simp
  from inv(1) mem have lt: "?i < length descriptions" by blast
  have cases: "?out =
     (if needs \<noteq> [] \<and> apiKey env
      then (if snd ?rb then fillMissing needs (fst ?rb) else fst ?rb)
      else fillFallback needs (fst ?st))"
    unfolding needs_def by (rule batchCategorize_cases)
  have nth: "?out ! ?i = elemAt ?out ?i"
    using lt batchCategorize_length [of env rules descriptions] by (simp add: elemAt_nth)
  show ?thesis
  proof (cases "apiKey env")
    case False
    have "elemAt ?out ?i = ?fb"
      unfolding cases using False fillFallback_item [OF inv(2) mem] by simp
    with False show ?thesis unfolding nth by simp
  next
    case key: True
    show ?thesis
    proof (cases "\<exists>b'\<le>b. replyOf b' = Threw")
      case True
      then obtain b' where b': "b' \<le> b" "replyOf b' = Threw" by blast
      from b'(2) have th: "chatBatch env (0 + b')
           (map itemNormalized (take batchSize (drop (b' * batchSize) needs))) = Threw"
        unfolding replyOf_def batchOf_def by simp
      from memb have memb': "?item \<in> set (take batchSize (drop (b * batchSize) needs))"
        unfolding batchOf_def .
      from runBatches_threw_before [OF inv(2) memb' b'(1) th, where res = "fst ?st"] unfilled
      have t: "snd ?rb" "elemAt (fst ?rb) ?i = None" by simp_all
      have "elemAt ?out ?i = ?fb"
        unfolding cases using key ne t(1) fillMissing_item [OF inv(2) mem t(2)] by simp
      with True show ?thesis unfolding nth by simp
    next
      case nothrow: False
      then have nt: "\<forall>b'\<le>b. replyOf b' \<noteq> Threw" by blast
      from key nothrow have c0: "\<not> (\<not> apiKey env \<or> (\<exists>b'\<le>b. replyOf b' = Threw))" by blast
      then have ntb: "replyOf b \<noteq> Threw" by blast
      have failure: "parseFails env (replyOf b) \<Longrightarrow> ?out ! ?i = ?fb"
      proof -
        assume pf: "parseFails env (replyOf b)"
        from memb have m: "?item \<in> set (take batchSize (drop (b * batchSize)
                     (snd (firstPass rules 0 descriptions ([], [])))))"
          unfolding batchOf_def needs_def .
        from pf have p: "parseFails env (chatBatch env b
           (map itemNormalized (take batchSize (drop (b * batchSize)
              (snd (firstPass rules 0 descriptions ([], [])))))))"
          unfolding replyOf_def batchOf_def needs_def .
        from batchCategorize_parse_failure [OF m p] show ?thesis by simp
      qed
      show ?thesis
      proof (cases "replyOf b")
        case Threw
        with ntb show ?thesis by simp
      next
        case Malformed
        then have "parseFails env (replyOf b)" by (simp add: parseFails_def)
        from failure [OF this] Malformed show ?thesis unfolding if_not_P [OF c0] by simp
      next
        case (Content c)
        show ?thesis
        proof (cases "jsonParse env (contentOr c ''[]'')")
          case None
          with Content have "parseFails env (replyOf b)" by (simp add: parseFails_def)
          from failure [OF this] Content None show ?thesis unfolding if_not_P [OF c0] by simp
        next
          case (Some cats)
          from q have q': "q < length (take batchSize (drop (b * batchSize) needs))"
            unfolding batchOf_def .
          from nt have nt': "\<forall>b'\<le>b. chatBatch env (0 + b')
              (map itemNormalized (take batchSize (drop (b' * batchSize) needs))) \<noteq> Threw"
            unfolding replyOf_def batchOf_def by simp
          from Content have c': "chatBatch env (0 + b)
              (map itemNormalized (take batchSize (drop (b * batchSize) needs))) = Content c"
            unfolding replyOf_def batchOf_def by simp
          from runBatches_parsed [OF inv(2) q' nt' c' Some, where res = "fst ?st"]
          have f: "elemAt (fst ?rb) ?i
              = Some (aiResult (validCategory (elemAt cats q)) (itemNormalized ?item))"
            unfolding batchOf_def .
          then have "elemAt (fst ?rb) ?i \<noteq> None" by simp
          from fillMissing_keeps [OF this, of needs] f
          have "elemAt (fillMissing needs (fst ?rb)) ?i
              = Some (aiResult (validCategory (elemAt cats q)) (itemNormalized ?item))" by simp
          with f have "elemAt ?out ?i
              = Some (aiResult (validCategory (elemAt cats q)) (itemNormalized ?item))"
            unfolding cases using key ne by simp
          with Content Some show ?thesis unfolding nth if_not_P [OF c0] by simp
        qed
      qed
    qed
  qed
qed


lemma validCategory_coerces:
  "validCategory entry =
     (case entry of None \<Rightarrow> ''Other'' | Some l \<Rightarrow> if l \<in> set CATEGORIES then l else ''Other'')"
proof -
  have "[] \<notin> set CATEGORIES" by (simp add: CATEGORIES_def)
  then show ?thesis by (auto simp: validCategory_def split: option.splits)
qed

lemma batchCategorize_holes:
  "None \<notin> set (batchCategorize env rules descriptions)"
proof
  let ?out = "batchCategorize env rules descriptions"
  assume "None \<in> set ?out"
  then obtain j where j: "j < length ?out" "?out ! j = None" by (auto simp: in_set_conv_nth)
  then have "elemAt ?out j \<noteq> None" by (simp add: batchCategorize_filled batchCategorize_length)
  with j show False by (simp add: elemAt_nth)
qed

text \<open>
  C10. Batch categorisation returns an array of the length of its input with a result at
  every index whenever every read of the rule table in its first pass resolves, and the
  results are these. An index that a rule or a pattern decides holds that result. The
  other indices, \<open>undecided\<close>, go to the hosted model in batches of twenty, in order:
  \<open>batch b\<close> is batch number \<open>b\<close> and \<open>reply b\<close> the reply to it. The index at position
  \<open>q\<close> of batch \<open>b\<close> holds the fallback result (\<open>Other\<close>, low, fallback) when there is no
  key, when the call for its batch or for an earlier batch rejected, or when the reply to
  its batch does not parse. When the calls up to its batch resolved and the reply parses
  to \<open>categories\<close>, it holds a result of method AI whose category is \<open>categories[q]\<close> if
  that is one of \<open>CATEGORIES\<close>, and \<open>Other\<close> if the entry is missing or is anything else.
  When a read of the rule table rejects, the call rejects with the error of the first
  read that did, and returns no array.
\<close>

theorem batchCategorize_total:
  fixes env :: environment and reads :: "nat \<Rightarrow> db_error option"
    and rules :: "CategoryRule list" and descriptions :: "string list"
  defines "undecided \<equiv>
      filter (\<lambda>i. categorizeByPattern rules (descriptions ! i) = None) [0..<length descriptions]"
  defines "batch \<equiv> \<lambda>b. take batchSize (drop (b * batchSize) undecided)"
  defines "reply \<equiv>
      \<lambda>b. chatBatch env b (map (\<lambda>i. normalizeMerchant (descriptions ! i)) (batch b))"
  shows "(j < length descriptions \<and> reads j = Some e \<and> (\<forall>i<j. reads i = None)
          \<longrightarrow> batchCategorizeAsync env reads rules descriptions = Inl e)
     \<and> ((\<forall>i<length descriptions. reads i = None) \<longrightarrow>
          (\<exists>out. batchCategorizeAsync env reads rules descriptions = Inr out
             \<and> length out = length descriptions
             \<and> None \<notin> set out
             \<and> (\<forall>i r. i < length descriptions
                      \<and> categorizeByPattern rules (descriptions ! i) = Some r
                    \<longrightarrow> out ! i = Some r)
             \<and> (\<forall>b q. q < length (batch b) \<longrightarrow>
                   (\<not> apiKey env \<or> (\<exists>b'\<le>b. reply b' = Threw) \<or> parseFails env (reply b)
                    \<longrightarrow> out ! (batch b ! q) =
                          Some \<lparr>category = ''Other'', confidence = Low, via_method = Fallback,
                                normalizedMerchant = normalizeMerchant (descriptions ! (batch b ! q)),
                                suggestRule = Some True\<rparr>)
                 \<and> (\<forall>c categories.
                        apiKey env \<and> (\<forall>b'\<le>b. reply b' \<noteq> Threw) \<and> reply b = Content c
                        \<and> jsonParse env (contentOr c ''[]'') = Some categories
                      \<longrightarrow> out ! (batch b ! q) =
                            Some (let valid = (case elemAt categories q of
                                                 None \<Rightarrow> ''Other''
                                               | Some l \<Rightarrow>
                                                   if l \<in> set CATEGORIES then l else ''Other'')
                                  in \<lparr>category = valid,
                                      confidence = (if valid = ''Other'' then Low else Medium),
                                      via_method = AI,
                                      normalizedMerchant =
                                        normalizeMerchant (descriptions ! (batch b ! q)),
                                      suggestRule = Some True\<rparr>)))))"
proof (intro conjI impI)
  assume "j < length descriptions \<and> reads j = Some e \<and> (\<forall>i<j. reads i = None)"
  then show "batchCategorizeAsync env reads rules descriptions = Inl e"
    using batchCategorizeAsync_rejected by blast
next
  let ?out = "batchCategorize env rules descriptions"
  let ?needs = "snd (firstPass rules 0 descriptions ([], []))"
  assume "\<forall>i<length descriptions. reads i = None"
  then have res: "batchCategorizeAsync env reads rules descriptions = Inr ?out"
    by (rule batchCategorizeAsync_resolved)
  define mk where "mk = (\<lambda>i. \<lparr>itemIndex = i, itemDescription = descriptions ! i,
                            itemNormalized = normalizeMerchant (descriptions ! i)\<rparr>)"
  have needs: "?needs = map mk undecided"
    unfolding firstPass_needs undecided_def mk_def by simp
  have bo: "\<And>b. take batchSize (drop (b * batchSize) ?needs) = map mk (batch b)"
    unfolding needs batch_def by (simp add: take_map drop_map)
  have norm: "\<And>b. map itemNormalized (map mk (batch b))
      = map (\<lambda>i. normalizeMerchant (descriptions ! i)) (batch b)"
    by (simp add: mk_def comp_def)
  have items: "\<forall>b q. q < length (batch b) \<longrightarrow>
                   (\<not> apiKey env \<or> (\<exists>b'\<le>b. reply b' = Threw) \<or> parseFails env (reply b)
                    \<longrightarrow> ?out ! (batch b ! q) =
                          Some \<lparr>category = ''Other'', confidence = Low, via_method = Fallback,
                                normalizedMerchant = normalizeMerchant (descriptions ! (batch b ! q)),
                                suggestRule = Some True\<rparr>)
                 \<and> (\<forall>c categories.
                        apiKey env \<and> (\<forall>b'\<le>b. reply b' \<noteq> Threw) \<and> reply b = Content c
                        \<and> jsonParse env (contentOr c ''[]'') = Some categories
                      \<longrightarrow> ?out ! (batch b ! q) =
                            Some (let valid = (case elemAt categories q of
                                                 None \<Rightarrow> ''Other''
                                               | Some l \<Rightarrow>
                                                   if l \<in> set CATEGORIES then l else ''Other'')
                                  in \<lparr>category = valid,
                                      confidence = (if valid = ''Other'' then Low else Medium),
                                      via_method = AI,
                                      normalizedMerchant =
                                        normalizeMerchant (descriptions ! (batch b ! q)),
                                      suggestRule = Some True\<rparr>))"
  proof (intro allI impI)
    fix b q
    assume q: "q < length (batch b)"
    let ?i = "batch b ! q"
    let ?n = "normalizeMerchant (descriptions ! ?i)"
    from q have q': "q < length (take batchSize (drop (b * batchSize) ?needs))"
      unfolding bo by simp
    have at: "map mk (batch b) ! q = mk ?i" using q by (rule nth_map)
    have idx: "itemIndex (mk ?i) = ?i" "itemNormalized (mk ?i) = ?n"
      by (simp_all add: mk_def)
    have item: "?out ! ?i =
       Some (if \<not> apiKey env \<or> (\<exists>b'\<le>b. reply b' = Threw)
             then fallbackResult ?n
             else case reply b of
                    Content c \<Rightarrow>
                      (case jsonParse env (contentOr c ''[]'') of
                         Some cats \<Rightarrow> aiResult (validCategory (elemAt cats q)) ?n
                       | None \<Rightarrow> fallbackResult ?n)
                  | _ \<Rightarrow> fallbackResult ?n)"
      unfolding reply_def
      by (rule batchCategorize_item [OF q', of env, unfolded bo norm at idx])
    show "(\<not> apiKey env \<or> (\<exists>b'\<le>b. reply b' = Threw) \<or> parseFails env (reply b)
                    \<longrightarrow> ?out ! ?i =
                          Some \<lparr>category = ''Other'', confidence = Low, via_method = Fallback,
                                normalizedMerchant = ?n, suggestRule = Some True\<rparr>)
                 \<and> (\<forall>c categories.
                        apiKey env \<and> (\<forall>b'\<le>b. reply b' \<noteq> Threw) \<and> reply b = Content c
                        \<and> jsonParse env (contentOr c ''[]'') = Some categories
                      \<longrightarrow> ?out ! ?i =
                            Some (let valid = (case elemAt categories q of
                                                 None \<Rightarrow> ''Other''
                                               | Some l \<Rightarrow>
                                                   if l \<in> set CATEGORIES then l else ''Other'')
                                  in \<lparr>category = valid,
                                      confidence = (if valid = ''Other'' then Low else Medium),
                                      via_method = AI, normalizedMerchant = ?n,
                                      suggestRule = Some True\<rparr>))"
    proof (intro conjI allI impI)
      assume "\<not> apiKey env \<or> (\<exists>b'\<le>b. reply b' = Threw) \<or> parseFails env (reply b)"
      then have "?out ! ?i = Some (fallbackResult ?n)"
        unfolding item by (auto simp: parseFails_def split: chat_reply.splits option.splits)
      then show "?out ! ?i =
          Some \<lparr>category = ''Other'', confidence = Low, via_method = Fallback,
                normalizedMerchant = ?n, suggestRule = Some True\<rparr>"
        by (simp add: fallbackResult_def)
    next
      fix c categories
      assume a: "apiKey env \<and> (\<forall>b'\<le>b. reply b' \<noteq> Threw) \<and> reply b = Content c
                        \<and> jsonParse env (contentOr c ''[]'') = Some categories"
      then have c0: "\<not> (\<not> apiKey env \<or> (\<exists>b'\<le>b. reply b' = Threw))" by blast
      from a have "?out ! ?i = Some (aiResult (validCategory (elemAt categories q)) ?n)"
        unfolding item if_not_P [OF c0] by simp
      then show "?out ! ?i =
                            Some (let valid = (case elemAt categories q of
                                                 None \<Rightarrow> ''Other''
                                               | Some l \<Rightarrow>
                                                   if l \<in> set CATEGORIES then l else ''Other'')
                                  in \<lparr>category = valid,
                                      confidence = (if valid = ''Other'' then Low else Medium),
                                      via_method = AI, normalizedMerchant = ?n,
                                      suggestRule = Some True\<rparr>)"
        by (simp add: aiResult_def validCategory_coerces Let_def)
    qed
  qed
  have pat: "\<forall>i r. i < length descriptions
                      \<and> categorizeByPattern rules (descriptions ! i) = Some r
                    \<longrightarrow> ?out ! i = Some r"
    using batchCategorize_pattern by blast
  from res batchCategorize_length [of env rules descriptions]
    batchCategorize_holes [of env rules descriptions] pat items
  show "\<exists>out. batchCategorizeAsync env reads rules descriptions = Inr out
             \<and> length out = length descriptions
             \<and> None \<notin> set out
             \<and> (\<forall>i r. i < length descriptions
                      \<and> categorizeByPattern rules (descriptions ! i) = Some r
                    \<longrightarrow> out ! i = Some r)
             \<and> (\<forall>b q. q < length (batch b) \<longrightarrow>
                   (\<not> apiKey env \<or> (\<exists>b'\<le>b. reply b' = Threw) \<or> parseFails env (reply b)
                    \<longrightarrow> out ! (batch b ! q) =
                          Some \<lparr>category = ''Other'', confidence = Low, via_method = Fallback,
                                normalizedMerchant = normalizeMerchant (descriptions ! (batch b ! q)),
                                suggestRule = Some True\<rparr>)
                 \<and> (\<forall>c categories.
                        apiKey env \<and> (\<forall>b'\<le>b. reply b' \<noteq> Threw) \<and> reply b = Content c
                        \<and> jsonParse env (contentOr c ''[]'') = Some categories
                      \<longrightarrow> out ! (batch b ! q) =
                            Some (let valid = (case elemAt categories q of
                                                 None \<Rightarrow> ''Other''
                                               | Some l \<Rightarrow>
                                                   if l \<in> set CATEGORIES then l else ''Other'')
                                  in \<lparr>category = valid,
                                      confidence = (if valid = ''Other'' then Low else Medium),
                                      via_method = AI,
                                      normalizedMerchant =
                                        normalizeMerchant (descriptions ! (batch b ! q)),
                                      suggestRule = Some True\<rparr>)))"
    by (intro exI [of _ ?out] conjI) assumption+
qed

theorem batchCategorize_total_witness:
  "(\<exists>out. batchCategorizeAsync
       \<lparr>apiKey = True, chatSingle = (\<lambda>d n. Threw),
      chatBatch = (\<lambda>k ns. if k = 0 then Content (Some ''[..]'') else Threw),
      jsonParse = (\<lambda>c. Some [Some ''Dining'', Some ''Food''])\<rparr>
       (\<lambda>i. None) []
       [''STARBUCKS'', ''QQQ'', ''QQQ'', ''QQQ'', ''QQQ'', ''QQQ'', ''QQQ'', ''QQQ'',
      ''QQQ'', ''QQQ'', ''QQQ'', ''QQQ'', ''QQQ'', ''QQQ'', ''QQQ'',
      ''QQQ'', ''QQQ'', ''QQQ'', ''QQQ'', ''QQQ'', ''QQQ'', ''QQQ''] = Inr out
     \<and> length out = 22
     \<and> out ! 0 = Some \<lparr>category = ''Coffee'', confidence = High, via_method = Pattern,
             normalizedMerchant = ''STARBUCKS'', suggestRule = None\<rparr>
     \<and> out ! 1 = Some \<lparr>category = ''Dining'', confidence = Medium, via_method = AI,
             normalizedMerchant = ''QQQ'', suggestRule = Some True\<rparr>
     \<and> out ! 2 = Some \<lparr>category = ''Other'', confidence = Low, via_method = AI,
             normalizedMerchant = ''QQQ'', suggestRule = Some True\<rparr>
     \<and> out ! 3 = Some \<lparr>category = ''Other'', confidence = Low, via_method = AI,
             normalizedMerchant = ''QQQ'', suggestRule = Some True\<rparr>
     \<and> out ! 21 = Some \<lparr>category = ''Other'', confidence = Low, via_method = Fallback,
             normalizedMerchant = ''QQQ'', suggestRule = Some True\<rparr>)
   \<and> batchCategorizeAsync
       \<lparr>apiKey = True, chatSingle = (\<lambda>d n. Threw),
      chatBatch = (\<lambda>k ns. if k = 0 then Content (Some ''[..]'') else Threw),
      jsonParse = (\<lambda>c. Some [Some ''Dining'', Some ''Food''])\<rparr>
       (\<lambda>i. if i = 2 then Some OtherDbError else None) []
       [''ZZZ'', ''STARBUCKS'', ''QQQ'', ''ZZZ''] = Inl OtherDbError"
proof -
  let ?env = "\<lparr>apiKey = True, chatSingle = (\<lambda>d n. Threw),
      chatBatch = (\<lambda>k ns. if k = 0 then Content (Some ''[..]'') else Threw),
      jsonParse = (\<lambda>c. Some [Some ''Dining'', Some ''Food''])\<rparr>"
  let ?ds = "[''STARBUCKS'', ''QQQ'', ''QQQ'', ''QQQ'', ''QQQ'', ''QQQ'', ''QQQ'', ''QQQ'',
      ''QQQ'', ''QQQ'', ''QQQ'', ''QQQ'', ''QQQ'', ''QQQ'', ''QQQ'',
      ''QQQ'', ''QQQ'', ''QQQ'', ''QQQ'', ''QQQ'', ''QQQ'', ''QQQ'']"
  let ?idx = "[1, 2, 3, 4, 5, 6, 7, 8, 9, 10, 11, 12, 13, 14, 15, 16, 17, 18, 19, 20, 21] :: nat list"
  let ?batch = "\<lambda>b. take batchSize (drop (b * batchSize) ?idx)"
  let ?reply = "\<lambda>b. chatBatch ?env b (map (\<lambda>i. normalizeMerchant (?ds ! i)) (?batch b))"
  have p0: "categorizeByPattern [] ''QQQ'' = None" by code_simp
  have p1: "categorizeByPattern [] ''STARBUCKS'' = Some \<lparr>category = ''Coffee'', confidence = High, via_method = Pattern,
             normalizedMerchant = ''STARBUCKS'', suggestRule = None\<rparr>"
    by code_simp
  have n0: "normalizeMerchant ''QQQ'' = ''QQQ''" by code_simp
  have up: "[0..<22] = [0, 1, 2, 3, 4, 5, 6, 7, 8, 9, 10, 11, 12, 13, 14, 15, 16, 17, 18, 19, 20,
      21 :: nat]"
    by (simp add: upt_conv_Cons)
  have und: "filter (\<lambda>i. categorizeByPattern [] (?ds ! i) = None) [0..<length ?ds] = ?idx"
    by (simp add: p0 p1 up)
  have b0: "?batch 0 = [1, 2, 3, 4, 5, 6, 7, 8, 9, 10, 11, 12, 13, 14, 15, 16, 17, 18, 19, 20]"
    and b1: "?batch 1 = [21]"
    by (simp_all add: batchSize_def)
  have h: "\<forall>i<length ?ds. (\<lambda>i. None :: db_error option) i = None" by simp
  note ex = mp [OF conjunct2 [OF batchCategorize_total [where env = ?env
        and reads = "\<lambda>i. None" and rules = "[]" and descriptions = ?ds, unfolded und]] h]
  from ex have main: "\<exists>out. batchCategorizeAsync
       \<lparr>apiKey = True, chatSingle = (\<lambda>d n. Threw),
      chatBatch = (\<lambda>k ns. if k = 0 then Content (Some ''[..]'') else Threw),
      jsonParse = (\<lambda>c. Some [Some ''Dining'', Some ''Food''])\<rparr>
       (\<lambda>i. None) []
       [''STARBUCKS'', ''QQQ'', ''QQQ'', ''QQQ'', ''QQQ'', ''QQQ'', ''QQQ'', ''QQQ'',
      ''QQQ'', ''QQQ'', ''QQQ'', ''QQQ'', ''QQQ'', ''QQQ'', ''QQQ'',
      ''QQQ'', ''QQQ'', ''QQQ'', ''QQQ'', ''QQQ'', ''QQQ'', ''QQQ''] = Inr out
     \<and> length out = 22
     \<and> out ! 0 = Some \<lparr>category = ''Coffee'', confidence = High, via_method = Pattern,
             normalizedMerchant = ''STARBUCKS'', suggestRule = None\<rparr>
     \<and> out ! 1 = Some \<lparr>category = ''Dining'', confidence = Medium, via_method = AI,
             normalizedMerchant = ''QQQ'', suggestRule = Some True\<rparr>
     \<and> out ! 2 = Some \<lparr>category = ''Other'', confidence = Low, via_method = AI,
             normalizedMerchant = ''QQQ'', suggestRule = Some True\<rparr>
     \<and> out ! 3 = Some \<lparr>category = ''Other'', confidence = Low, via_method = AI,
             normalizedMerchant = ''QQQ'', suggestRule = Some True\<rparr>
     \<and> out ! 21 = Some \<lparr>category = ''Other'', confidence = Low, via_method = Fallback,
             normalizedMerchant = ''QQQ'', suggestRule = Some True\<rparr>"
  proof (elim exE conjE)
    fix out
    assume r: "batchCategorizeAsync ?env (\<lambda>i. None) [] ?ds = Inr out"
      and len: "length out = length ?ds"
      and pat: "\<forall>i r. i < length ?ds \<and> categorizeByPattern [] (?ds ! i) = Some r
                  \<longrightarrow> out ! i = Some r"
      and items: "\<forall>b q. q < length (?batch b) \<longrightarrow>
                   (\<not> apiKey ?env \<or> (\<exists>b'\<le>b. ?reply b' = Threw) \<or> parseFails ?env (?reply b)
                    \<longrightarrow> out ! (?batch b ! q) =
                          Some \<lparr>category = ''Other'', confidence = Low, via_method = Fallback,
                                normalizedMerchant = normalizeMerchant (?ds ! (?batch b ! q)),
                                suggestRule = Some True\<rparr>)
                 \<and> (\<forall>c categories.
                        apiKey ?env \<and> (\<forall>b'\<le>b. ?reply b' \<noteq> Threw) \<and> ?reply b = Content c
                        \<and> jsonParse ?env (contentOr c ''[]'') = Some categories
                      \<longrightarrow> out ! (?batch b ! q) =
                            Some (let valid = (case elemAt categories q of
                                                 None \<Rightarrow> ''Other''
                                               | Some l \<Rightarrow>
                                                   if l \<in> set CATEGORIES then l else ''Other'')
                                  in \<lparr>category = valid,
                                      confidence = (if valid = ''Other'' then Low else Medium),
                                      via_method = AI,
                                      normalizedMerchant =
                                        normalizeMerchant (?ds ! (?batch b ! q)),
                                      suggestRule = Some True\<rparr>))"
    have o0: "out ! 0 = Some \<lparr>category = ''Coffee'', confidence = High, via_method = Pattern,
             normalizedMerchant = ''STARBUCKS'', suggestRule = None\<rparr>"
      using pat [rule_format, of 0] p1 by simp
    have parsed: "q < 20 \<Longrightarrow> out ! (?batch 0 ! q) =
        Some (let valid = (case elemAt [Some ''Dining'', Some ''Food''] q of
                             None \<Rightarrow> ''Other''
                           | Some l \<Rightarrow> if l \<in> set CATEGORIES then l else ''Other'')
              in \<lparr>category = valid,
                  confidence = (if valid = ''Other'' then Low else Medium),
                  via_method = AI,
                  normalizedMerchant = normalizeMerchant (?ds ! (?batch 0 ! q)),
                  suggestRule = Some True\<rparr>)" for q
    proof -
      assume "q < 20"
      then have q: "q < length (?batch 0)" unfolding b0 by simp
      have "apiKey ?env \<and> (\<forall>b'\<le>0. ?reply b' \<noteq> Threw) \<and> ?reply 0 = Content (Some ''[..]'')
          \<and> jsonParse ?env (contentOr (Some ''[..]'') ''[]'') = Some [Some ''Dining'', Some ''Food'']"
        by simp
      with items [rule_format, of q 0, OF q] show ?thesis by blast
    qed
    have o1: "out ! 1 = Some \<lparr>category = ''Dining'', confidence = Medium, via_method = AI,
             normalizedMerchant = ''QQQ'', suggestRule = Some True\<rparr>"
      using parsed [of 0] unfolding b0 by (simp add: n0 elemAt_def CATEGORIES_def)
    have o2: "out ! 2 = Some \<lparr>category = ''Other'', confidence = Low, via_method = AI,
             normalizedMerchant = ''QQQ'', suggestRule = Some True\<rparr>"
      using parsed [of 1] unfolding b0 by (simp add: n0 elemAt_def CATEGORIES_def)
    have o3: "out ! 3 = Some \<lparr>category = ''Other'', confidence = Low, via_method = AI,
             normalizedMerchant = ''QQQ'', suggestRule = Some True\<rparr>"
      using parsed [of 2] unfolding b0 by (simp add: n0 elemAt_def CATEGORIES_def)
    have q1: "0 < length (?batch 1)" unfolding b1 by simp
    have "\<exists>b'\<le>1. ?reply b' = Threw" by (rule exI [of _ 1]) simp
    then have "\<not> apiKey ?env \<or> (\<exists>b'\<le>1. ?reply b' = Threw) \<or> parseFails ?env (?reply 1)"
      by blast
    with items [rule_format, of 0 1, OF q1]
    have "out ! (?batch 1 ! 0) =
        Some \<lparr>category = ''Other'', confidence = Low, via_method = Fallback,
              normalizedMerchant = normalizeMerchant (?ds ! (?batch 1 ! 0)),
              suggestRule = Some True\<rparr>"
      by blast
    then have o21: "out ! 21 = Some \<lparr>category = ''Other'', confidence = Low, via_method = Fallback,
             normalizedMerchant = ''QQQ'', suggestRule = Some True\<rparr>"
      unfolding b1 by (simp add: n0)
    from r len o0 o1 o2 o3 o21
    show "\<exists>out. batchCategorizeAsync ?env (\<lambda>i. None) [] ?ds = Inr out
     \<and> length out = 22
     \<and> out ! 0 = Some \<lparr>category = ''Coffee'', confidence = High, via_method = Pattern,
             normalizedMerchant = ''STARBUCKS'', suggestRule = None\<rparr>
     \<and> out ! 1 = Some \<lparr>category = ''Dining'', confidence = Medium, via_method = AI,
             normalizedMerchant = ''QQQ'', suggestRule = Some True\<rparr>
     \<and> out ! 2 = Some \<lparr>category = ''Other'', confidence = Low, via_method = AI,
             normalizedMerchant = ''QQQ'', suggestRule = Some True\<rparr>
     \<and> out ! 3 = Some \<lparr>category = ''Other'', confidence = Low, via_method = AI,
             normalizedMerchant = ''QQQ'', suggestRule = Some True\<rparr>
     \<and> out ! 21 = Some \<lparr>category = ''Other'', confidence = Low, via_method = Fallback,
             normalizedMerchant = ''QQQ'', suggestRule = Some True\<rparr>"
      by simp
  qed
  have "2 < length [''ZZZ'', ''STARBUCKS'', ''QQQ'', ''ZZZ'']
      \<and> (\<lambda>i. if i = 2 then Some OtherDbError else None) (2 :: nat) = Some OtherDbError
      \<and> (\<forall>i<2. (\<lambda>i. if i = 2 then Some OtherDbError else None) (i :: nat) = None)"
    by simp
  from mp [OF conjunct1 [OF batchCategorize_total [where env = ?env
        and reads = "\<lambda>i. if i = 2 then Some OtherDbError else None" and rules = "[]"
        and descriptions = "[''ZZZ'', ''STARBUCKS'', ''QQQ'', ''ZZZ'']" and j = 2
        and e = OtherDbError]] this]
  have rej: "batchCategorizeAsync ?env (\<lambda>i. if i = 2 then Some OtherDbError else None) []
      [''ZZZ'', ''STARBUCKS'', ''QQQ'', ''ZZZ''] = Inl OtherDbError" .
  from main rej show ?thesis by (rule conjI)
qed

text \<open>
  The claim speaks of every input list. The first pass reads the rule table once for
  every description, outside the \<open>try\<close> blocks of the function: when the table cannot be
  read at the second description, the call rejects and no array is returned, whatever
  the hosted model would have answered.
\<close>

theorem batchCategorize_rejects_with_the_store:
  "batchCategorizeAsync
     \<lparr>apiKey = True, chatSingle = (\<lambda>d n. Content (Some ''Dining'')),
      chatBatch = (\<lambda>k ns. Content (Some ''[]'')), jsonParse = (\<lambda>c. Some [])\<rparr>
     (\<lambda>i. if i = 1 then Some OtherDbError else None) [] [''ZZZ'', ''QQQ'']
   = Inl OtherDbError"
  by code_simp

section \<open>Similarity search\<close>

lemma slice0_take: "\<exists>m. slice0 e xs = take m xs"
  unfolding slice0_def Let_def by (cases "(if e < 0 then \<lceil>e\<rceil> else \<lfloor>e\<rfloor>) < 0") (simp_all only: if_True if_False, blast+)

lemma slice0_length: "0 \<le> e \<Longrightarrow> real (length (slice0 e xs)) \<le> e"
proof -
  assume e: "0 \<le> e"
  then have f: "0 \<le> \<lfloor>e\<rfloor>" by simp
  from e have "slice0 e xs = take (nat \<lfloor>e\<rfloor>) xs" by (simp add: slice0_def Let_def)
  then have "length (slice0 e xs) \<le> nat \<lfloor>e\<rfloor>" by simp
  then have "real (length (slice0 e xs)) \<le> real (nat \<lfloor>e\<rfloor>)" by simp
  also have "\<dots> = of_int \<lfloor>e\<rfloor>" using f by simp
  also have "\<dots> \<le> e" by simp
  finally show ?thesis .
qed

lemma scoreRows_documents:
  "scoreRows q rows = Inr results \<Longrightarrow> map document results = rows"
proof (induction rows arbitrary: results)
  case Nil
  then show ?case by simp
next
  case (Cons row rows)
  then show ?case by (auto split: sum.splits)
qed

lemma distanceRows_rows:
  "distanceRows distance q rows = Inr ds \<Longrightarrow> map fst ds = rows"
proof (induction rows arbitrary: ds)
  case Nil
  then show ?case by simp
next
  case (Cons row rows)
  then show ?case by (auto split: sum.splits option.splits)
qed

lemma sorted_wrt_desc_of_neg:
  "sorted (map (\<lambda>r. - score r) xs) \<Longrightarrow> sorted_wrt (\<lambda>a b. a \<ge> b) (map score xs)"
  by (induction xs) auto

lemma searchSimilar_sound:
  assumes "searchSimilar model table userId query options = Inr results"
  shows "(\<forall>r\<in>set results. document r \<in> set table \<and> inScope userId (docTypes options) (document r)
            \<and> score r \<ge> optionOr (minScore options) (1 / 2))
       \<and> sorted_wrt (\<lambda>a b. a \<ge> b) (map score results)
       \<and> (0 \<le> optionOr (topK options) 10
            \<longrightarrow> real (length results) \<le> optionOr (topK options) 10)"
proof -
  from assms obtain q scored where
    sc: "scoreRows q (filter (inScope userId (docTypes options)) table) = Inr scored"
    and res: "results = slice0 (optionOr (topK options) 10)
        (sort_key (\<lambda>r. - score r)
           (filter (\<lambda>r. score r \<ge> optionOr (minScore options) (1 / 2)) scored))"
    by (auto simp: searchSimilar_def Let_def split: sum.splits)
  let ?kept = "filter (\<lambda>r. score r \<ge> optionOr (minScore options) (1 / 2)) scored"
  let ?sorted = "sort_key (\<lambda>r. - score r) ?kept"
  from slice0_take [of "optionOr (topK options) 10" ?sorted]
  obtain m where tk: "results = take m ?sorted" unfolding res by blast
  have docs: "map document scored = filter (inScope userId (docTypes options)) table"
    by (rule scoreRows_documents [OF sc])
  have sub: "set results \<subseteq> set ?kept"
    unfolding tk using set_take_subset [of _ ?sorted] by simp
  have a: "\<forall>r\<in>set results. document r \<in> set table \<and> inScope userId (docTypes options) (document r)
            \<and> score r \<ge> optionOr (minScore options) (1 / 2)"
  proof
    fix r assume "r \<in> set results"
    with sub have r: "r \<in> set scored" "score r \<ge> optionOr (minScore options) (1 / 2)" by auto
    then have "document r \<in> set (map document scored)" by simp
    with docs r(2) show "document r \<in> set table \<and> inScope userId (docTypes options) (document r)
            \<and> score r \<ge> optionOr (minScore options) (1 / 2)" by simp
  qed
  have "sorted (map (\<lambda>r. - score r) ?sorted)" by simp
  then have "sorted (map (\<lambda>r. - score r) results)"
    unfolding tk by (simp add: take_map [symmetric] sorted_wrt_take del: sorted_sort_key)
  then have b: "sorted_wrt (\<lambda>a b. a \<ge> b) (map score results)"
    by (rule sorted_wrt_desc_of_neg)
  have c: "0 \<le> optionOr (topK options) 10
            \<longrightarrow> real (length results) \<le> optionOr (topK options) 10"
    unfolding res using slice0_length by blast
  from a b c show ?thesis by blast
qed

lemma sorted_wrt_desc_of_distance:
  "sorted (map snd ds) \<Longrightarrow>
   sorted_wrt (\<lambda>a b. a \<ge> b)
     (map score (map (\<lambda>(row, d). \<lparr>document = row\<lparr>embedding := []\<rparr>, score = 1 - d\<rparr>) ds))"
  by (induction ds) auto

lemma searchSimilar_pgvector_sound:
  assumes "searchSimilar_pgvector model distance limit injected table userId query options
             = Inr results"
    and "quote \<notin> set userId"
  shows "\<exists>n. limit (optionOr (topK options) 10) = Some n
       \<and> (\<forall>r\<in>set results. (\<exists>row\<in>set table. document r = row\<lparr>embedding := []\<rparr>
              \<and> inScope userId (docTypes options) row)
            \<and> score r \<ge> optionOr (minScore options) (1 / 2))
       \<and> sorted_wrt (\<lambda>a b. a \<ge> b) (map score results)
       \<and> length results \<le> n"
proof -
  let ?least = "optionOr (minScore options) (1 / 2)"
  let ?mk = "\<lambda>(row, d). \<lparr>document = row\<lparr>embedding := []\<rparr>, score = 1 - d\<rparr>"
  from assms obtain q ds n where
    lim: "limit (optionOr (topK options) 10) = Some n"
    and dr: "distanceRows distance q (filter (inScope userId (docTypes options)) table) = Inr ds"
    and res: "results = map ?mk (filter (\<lambda>(row, d). 1 - d \<ge> ?least) (take n (sort_key snd ds)))"
    by (auto simp: searchSimilar_pgvector_def vectorQuery_def Let_def
          split: sum.splits option.splits)
  let ?top = "take n (sort_key snd ds)"
  let ?kept = "filter (\<lambda>(row, d). 1 - d \<ge> ?least) ?top"
  have rows: "map fst ds = filter (inScope userId (docTypes options)) table"
    by (rule distanceRows_rows [OF dr])
  have sub: "set ?kept \<subseteq> set ds"
    using set_take_subset [of n "sort_key snd ds"] by auto
  have a: "\<forall>r\<in>set results. (\<exists>row\<in>set table. document r = row\<lparr>embedding := []\<rparr>
              \<and> inScope userId (docTypes options) row) \<and> score r \<ge> ?least"
  proof
    fix r assume "r \<in> set results"
    then obtain row d where rd: "(row, d) \<in> set ?kept" "r = ?mk (row, d)"
      unfolding res by auto
    with sub have "(row, d) \<in> set ds" by blast
    then have "row \<in> set (map fst ds)" by force
    with rows have "row \<in> set table" "inScope userId (docTypes options) row" by simp_all
    moreover from rd(1) have "1 - d \<ge> ?least" by simp
    ultimately show "(\<exists>row\<in>set table. document r = row\<lparr>embedding := []\<rparr>
              \<and> inScope userId (docTypes options) row) \<and> score r \<ge> ?least"
      using rd(2) by auto
  qed
  have "sorted (map snd (sort_key snd ds))" by simp
  then have "sorted (map snd ?top)"
    by (simp add: take_map [symmetric] sorted_wrt_take del: sorted_sort_key)
  then have "sorted (map snd ?kept)"
    by (simp add: sorted_wrt_filter sorted_wrt_map del: sorted_sort_key)
  then have b: "sorted_wrt (\<lambda>a b. a \<ge> b) (map score results)"
    unfolding res by (rule sorted_wrt_desc_of_distance)
  have "length results = length ?kept" unfolding res by (rule length_map)
  also have "\<dots> \<le> length ?top" by (rule length_filter_le)
  also have "\<dots> \<le> n" by simp
  finally have c: "length results \<le> n" .
  from lim a b c show ?thesis by blast
qed

lemma sqrt_25: "sqrt 25 = 5"
  using real_sqrt_abs [of 5] by simp

lemma trim_coffee: "trim '' coffee '' = ''coffee''"
  by code_simp

text \<open>
  C9. Whatever either implementation of \<open>searchSimilar\<close> returns, every returned
  document belongs to the given user, has one of the requested document types when a
  non-empty list of types is given, and scores at least \<open>minScore\<close>; and the scores are in
  descending order. There are at most \<open>topK\<close> results when \<open>topK\<close> is not negative, for
  the scan, and when \<open>topK\<close> is a non-negative integer \<open>n\<close> which the database reads as
  \<open>LIMIT n\<close>, for the search delegated to the database. Of that search all this is said
  for a scope value without a quote character, the one case in which the statement it
  sends is the query it spells. The defaults are 10 for \<open>topK\<close> and 0.5 for \<open>minScore\<close>.
  An empty list of types is no filter, as the guard \<open>docTypes.length > 0\<close> of the source
  has it.
\<close>

theorem searchSimilar_contract:
  assumes "searchSimilar model table userId query options = Inr results
         \<or> (searchSimilar_pgvector model distance limit injected table userId query options
              = Inr results
            \<and> quote \<notin> set userId)"
  shows "(\<forall>r\<in>set results.
            user_id (document r) = userId
          \<and> (\<forall>ts. docTypes options = Some ts \<and> ts \<noteq> [] \<longrightarrow> doc_type (document r) \<in> set ts)
          \<and> score r \<ge> optionOr (minScore options) (1 / 2))
       \<and> sorted_wrt (\<lambda>a b. a \<ge> b) (map score results)
       \<and> (searchSimilar model table userId query options = Inr results
            \<and> 0 \<le> optionOr (topK options) 10
          \<longrightarrow> real (length results) \<le> optionOr (topK options) 10)
       \<and> (searchSimilar_pgvector model distance limit injected table userId query options
              = Inr results
            \<and> quote \<notin> set userId
            \<and> optionOr (topK options) 10 = real n
            \<and> limit (optionOr (topK options) 10) = Some n
          \<longrightarrow> real (length results) \<le> optionOr (topK options) 10)"
proof -
  have scan: "real (length results) \<le> optionOr (topK options) 10"
    if "searchSimilar model table userId query options = Inr results"
      and "0 \<le> optionOr (topK options) 10"
    using searchSimilar_sound [OF that(1)] that(2) by blast
  have pg: "real (length results) \<le> optionOr (topK options) 10"
    if r: "searchSimilar_pgvector model distance limit injected table userId query options
              = Inr results"
      and q: "quote \<notin> set userId"
      and k: "optionOr (topK options) 10 = real n"
      and l: "limit (optionOr (topK options) 10) = Some n"
  proof -
    from searchSimilar_pgvector_sound [OF r q] l have "length results \<le> n" by auto
    then show ?thesis unfolding k by simp
  qed
  have props: "(\<forall>r\<in>set results.
            user_id (document r) = userId
          \<and> (\<forall>ts. docTypes options = Some ts \<and> ts \<noteq> [] \<longrightarrow> doc_type (document r) \<in> set ts)
          \<and> score r \<ge> optionOr (minScore options) (1 / 2))
       \<and> sorted_wrt (\<lambda>a b. a \<ge> b) (map score results)"
    using assms
  proof
    assume "searchSimilar model table userId query options = Inr results"
    from searchSimilar_sound [OF this] show ?thesis
      by (auto simp: inScope_def)
  next
    assume a: "searchSimilar_pgvector model distance limit injected table userId query options
              = Inr results
            \<and> quote \<notin> set userId"
    from searchSimilar_pgvector_sound [OF conjunct1 [OF a] conjunct2 [OF a]] show ?thesis
      by (fastforce simp: inScope_def)
  qed
  from props scan pg show ?thesis by blast
qed

theorem searchSimilar_contract_witness:
  "searchSimilar (\<lambda>t. Some [1, 0])
     [\<lparr>row_id = 1, user_id = ''user_1'', doc_type = Transaction, source_id = ''10'',
        row_text = ''rent'', embedding = [0, 1]\<rparr>,
      \<lparr>row_id = 2, user_id = ''user_2'', doc_type = Transaction, source_id = ''11'',
        row_text = ''coffee'', embedding = [1, 0]\<rparr>,
      \<lparr>row_id = 3, user_id = ''user_1'', doc_type = Transaction, source_id = ''12'',
        row_text = ''tea'', embedding = [3, 4]\<rparr>,
      \<lparr>row_id = 4, user_id = ''user_1'', doc_type = Schema, source_id = ''13'',
        row_text = ''schema'', embedding = [1, 0]\<rparr>,
      \<lparr>row_id = 5, user_id = ''user_1'', doc_type = Transaction, source_id = ''14'',
        row_text = ''latte'', embedding = [4, 3]\<rparr>,
      \<lparr>row_id = 6, user_id = ''user_1'', doc_type = Transaction, source_id = ''15'',
        row_text = ''coffee'', embedding = [1, 0]\<rparr>]
     ''user_1'' '' coffee '' \<lparr>topK = Some 2, docTypes = Some [Transaction], minScore = None\<rparr>
   = Inr [\<lparr>document = \<lparr>row_id = 6, user_id = ''user_1'', doc_type = Transaction, source_id = ''15'',
          row_text = ''coffee'', embedding = [1, 0]\<rparr>,
        score = 1\<rparr>,
      \<lparr>document = \<lparr>row_id = 5, user_id = ''user_1'', doc_type = Transaction, source_id = ''14'',
          row_text = ''latte'', embedding = [4, 3]\<rparr>,
        score = 4 / 5\<rparr>]
   \<and> searchSimilar_pgvector (\<lambda>t. Some [1, 0])
       (\<lambda>a b. case cosineSimilarity b a of Inl e \<Rightarrow> None | Inr s \<Rightarrow> Some (1 - s))
       (\<lambda>k. if 0 \<le> k \<and> k = of_int \<lfloor>k\<rfloor> then Some (nat \<lfloor>k\<rfloor>) else None)
       (\<lambda>u. None)
     [\<lparr>row_id = 1, user_id = ''user_1'', doc_type = Transaction, source_id = ''10'',
        row_text = ''rent'', embedding = [0, 1]\<rparr>,
      \<lparr>row_id = 2, user_id = ''user_2'', doc_type = Transaction, source_id = ''11'',
        row_text = ''coffee'', embedding = [1, 0]\<rparr>,
      \<lparr>row_id = 3, user_id = ''user_1'', doc_type = Transaction, source_id = ''12'',
        row_text = ''tea'', embedding = [3, 4]\<rparr>,
      \<lparr>row_id = 4, user_id = ''user_1'', doc_type = Schema, source_id = ''13'',
        row_text = ''schema'', embedding = [1, 0]\<rparr>,
      \<lparr>row_id = 5, user_id = ''user_1'', doc_type = Transaction, source_id = ''14'',
        row_text = ''latte'', embedding = [4, 3]\<rparr>,
      \<lparr>row_id = 6, user_id = ''user_1'', doc_type = Transaction, source_id = ''15'',
        row_text = ''coffee'', embedding = [1, 0]\<rparr>]
     ''user_1'' '' coffee '' \<lparr>topK = Some 2, docTypes = Some [Transaction], minScore = None\<rparr>
   = Inr [\<lparr>document = \<lparr>row_id = 6, user_id = ''user_1'', doc_type = Transaction, source_id = ''15'',
          row_text = ''coffee'', embedding = []\<rparr>,
        score = 1\<rparr>,
      \<lparr>document = \<lparr>row_id = 5, user_id = ''user_1'', doc_type = Transaction, source_id = ''14'',
          row_text = ''latte'', embedding = []\<rparr>,
        score = 4 / 5\<rparr>]
   \<and> sorted_wrt (\<lambda>a b. a \<ge> b) [1, 4 / 5 :: real]
   \<and> real (length [\<lparr>document = \<lparr>row_id = 6, user_id = ''user_1'', doc_type = Transaction, source_id = ''15'',
          row_text = ''coffee'', embedding = [1, 0]\<rparr>,
        score = 1\<rparr>,
      \<lparr>document = \<lparr>row_id = 5, user_id = ''user_1'', doc_type = Transaction, source_id = ''14'',
          row_text = ''latte'', embedding = [4, 3]\<rparr>,
        score = 4 / 5\<rparr>]) \<le> optionOr (topK \<lparr>topK = Some 2, docTypes = Some [Transaction], minScore = None\<rparr>) 10
   \<and> real (length [\<lparr>document = \<lparr>row_id = 6, user_id = ''user_1'', doc_type = Transaction, source_id = ''15'',
          row_text = ''coffee'', embedding = []\<rparr>,
        score = 1\<rparr>,
      \<lparr>document = \<lparr>row_id = 5, user_id = ''user_1'', doc_type = Transaction, source_id = ''14'',
          row_text = ''latte'', embedding = []\<rparr>,
        score = 4 / 5\<rparr>]) \<le> optionOr (topK \<lparr>topK = Some 2, docTypes = Some [Transaction], minScore = None\<rparr>) 10"
proof -
  let ?table = "[\<lparr>row_id = 1, user_id = ''user_1'', doc_type = Transaction, source_id = ''10'',
        row_text = ''rent'', embedding = [0, 1]\<rparr>,
      \<lparr>row_id = 2, user_id = ''user_2'', doc_type = Transaction, source_id = ''11'',
        row_text = ''coffee'', embedding = [1, 0]\<rparr>,
      \<lparr>row_id = 3, user_id = ''user_1'', doc_type = Transaction, source_id = ''12'',
        row_text = ''tea'', embedding = [3, 4]\<rparr>,
      \<lparr>row_id = 4, user_id = ''user_1'', doc_type = Schema, source_id = ''13'',
        row_text = ''schema'', embedding = [1, 0]\<rparr>,
      \<lparr>row_id = 5, user_id = ''user_1'', doc_type = Transaction, source_id = ''14'',
        row_text = ''latte'', embedding = [4, 3]\<rparr>,
      \<lparr>row_id = 6, user_id = ''user_1'', doc_type = Transaction, source_id = ''15'',
        row_text = ''coffee'', embedding = [1, 0]\<rparr>]"
  let ?opts = "\<lparr>topK = Some 2, docTypes = Some [Transaction], minScore = None\<rparr>"
  let ?distance = "(\<lambda>a b. case cosineSimilarity b a of Inl e \<Rightarrow> None | Inr s \<Rightarrow> Some (1 - s))"
  let ?limit = "(\<lambda>k. if 0 \<le> k \<and> k = of_int \<lfloor>k\<rfloor> then Some (nat \<lfloor>k\<rfloor>) else None)"
  let ?out = "[\<lparr>document = \<lparr>row_id = 6, user_id = ''user_1'', doc_type = Transaction, source_id = ''15'',
          row_text = ''coffee'', embedding = [1, 0]\<rparr>,
        score = 1\<rparr>,
      \<lparr>document = \<lparr>row_id = 5, user_id = ''user_1'', doc_type = Transaction, source_id = ''14'',
          row_text = ''latte'', embedding = [4, 3]\<rparr>,
        score = 4 / 5\<rparr>]"
  let ?oute = "[\<lparr>document = \<lparr>row_id = 6, user_id = ''user_1'', doc_type = Transaction, source_id = ''15'',
          row_text = ''coffee'', embedding = []\<rparr>,
        score = 1\<rparr>,
      \<lparr>document = \<lparr>row_id = 5, user_id = ''user_1'', doc_type = Transaction, source_id = ''14'',
          row_text = ''latte'', embedding = []\<rparr>,
        score = 4 / 5\<rparr>]"
  have h: "searchSimilar (\<lambda>t. Some [1, 0]) ?table ''user_1'' '' coffee '' ?opts = Inr ?out"
    by (simp add: searchSimilar_def embedText_def trim_coffee inScope_def cosineSimilarity_def
          optionOr_def slice0_def sqrt_25)
  have k: "0 \<le> optionOr (topK ?opts) 10" by (simp add: optionOr_def)
  have g: "searchSimilar_pgvector (\<lambda>t. Some [1, 0]) ?distance ?limit (\<lambda>u. None) ?table
      ''user_1'' '' coffee '' ?opts = Inr ?oute"
    by (simp add: searchSimilar_pgvector_def vectorQuery_def embedText_def trim_coffee inScope_def
          cosineSimilarity_def optionOr_def quote_def sqrt_25)
  have q: "quote \<notin> set ''user_1''" by (simp add: quote_def)
  have n: "optionOr (topK ?opts) 10 = real 2" by (simp add: optionOr_def)
  have l: "?limit (optionOr (topK ?opts) 10) = Some 2" by (simp add: optionOr_def)
  from searchSimilar_contract [OF disjI1 [OF h], where n = 2 and distance = ?distance
        and limit = ?limit and injected = "\<lambda>u. None"]
    searchSimilar_contract [OF disjI2 [OF conjI [OF g q]], where n = 2] h g k n l q
  show ?thesis by simp
qed

text \<open>
  The claim puts no condition on \<open>topK\<close>. The scan ends with \<open>slice(0, topK)\<close>, and a
  negative end counts from the end of the array: with \<open>topK = -1\<close> the scan returns all
  matching documents but the last, here two of three, which is more than \<open>topK\<close>.
\<close>

theorem negative_topK_counts_from_end:
  "searchSimilar (\<lambda>t. Some [1, 0])
     [\<lparr>row_id = 1, user_id = ''user_1'', doc_type = Transaction, source_id = ''10'',
        row_text = ''rent'', embedding = [0, 1]\<rparr>,
      \<lparr>row_id = 2, user_id = ''user_2'', doc_type = Transaction, source_id = ''11'',
        row_text = ''coffee'', embedding = [1, 0]\<rparr>,
      \<lparr>row_id = 3, user_id = ''user_1'', doc_type = Transaction, source_id = ''12'',
        row_text = ''tea'', embedding = [3, 4]\<rparr>,
      \<lparr>row_id = 4, user_id = ''user_1'', doc_type = Schema, source_id = ''13'',
        row_text = ''schema'', embedding = [1, 0]\<rparr>,
      \<lparr>row_id = 5, user_id = ''user_1'', doc_type = Transaction, source_id = ''14'',
        row_text = ''latte'', embedding = [4, 3]\<rparr>,
      \<lparr>row_id = 6, user_id = ''user_1'', doc_type = Transaction, source_id = ''15'',
        row_text = ''coffee'', embedding = [1, 0]\<rparr>]
     ''user_1'' '' coffee '' \<lparr>topK = Some (- 1), docTypes = Some [Transaction], minScore = None\<rparr>
   = Inr [\<lparr>document = \<lparr>row_id = 6, user_id = ''user_1'', doc_type = Transaction, source_id = ''15'',
          row_text = ''coffee'', embedding = [1, 0]\<rparr>,
        score = 1\<rparr>,
      \<lparr>document = \<lparr>row_id = 5, user_id = ''user_1'', doc_type = Transaction, source_id = ''14'',
          row_text = ''latte'', embedding = [4, 3]\<rparr>,
        score = 4 / 5\<rparr>]
   \<and> optionOr (topK \<lparr>topK = Some (- 1), docTypes = Some [Transaction], minScore = None\<rparr>) 10
       < real (length [\<lparr>document = \<lparr>row_id = 6, user_id = ''user_1'', doc_type = Transaction, source_id = ''15'',
          row_text = ''coffee'', embedding = [1, 0]\<rparr>,
        score = 1\<rparr>,
      \<lparr>document = \<lparr>row_id = 5, user_id = ''user_1'', doc_type = Transaction, source_id = ''14'',
          row_text = ''latte'', embedding = [4, 3]\<rparr>,
        score = 4 / 5\<rparr>])"
  by (simp add: searchSimilar_def embedText_def trim_coffee inScope_def cosineSimilarity_def
        optionOr_def slice0_def sqrt_25 ceiling_minus)

section \<open>Scope injection\<close>

subsection \<open>Replacement with plain patterns\<close>

lemma expand_plain: "CHR ''$'' \<notin> set r \<Longrightarrow> expand r m b a = r"
  by (induction r m b a rule: expand.induct) auto

lemma matchAtoms_le: "matchAtoms ci as prev s = Some n \<Longrightarrow> n \<le> length s"
proof (induction as arbitrary: prev s n)
  case Nil
  then show ?case by simp
next
  case (Cons a as)
  show ?case
  proof (cases a)
    case (Lit l)
    with Cons.prems obtain m where m: "length l \<le> length s"
      "matchAtoms ci as (lastChar prev (take (length l) s)) (drop (length l) s) = Some m"
      "n = length l + m"
      by (auto split: if_splits)
    from Cons.IH [OF m(2)] m(1,3) show ?thesis by simp
  next
    case (Rep cls lo hi)
    let ?k = "greedy cls hi s"
    from Cons.prems Rep obtain m where m:
      "matchAtoms ci as (lastChar prev (take ?k s)) (drop ?k s) = Some m" "n = ?k + m"
      by (auto simp: Let_def split: if_splits)
    have "?k \<le> length s"
      by (auto simp: greedy_def Let_def length_takeWhile_le le_trans [OF min.cobounded2] split: option.splits)
    with Cons.IH [OF m(1)] m(2) show ?thesis by simp
  next
    case WordB
    with Cons.prems have "matchAtoms ci as prev s = Some n" by (simp split: if_splits)
    from Cons.IH [OF this] show ?thesis .
  next
    case End
    with Cons.prems have "matchAtoms ci as prev s = Some n" by (simp split: if_splits)
    from Cons.IH [OF this] show ?thesis .
  qed
qed

lemma matchHere_le: "matchHere re prev s = Some n \<Longrightarrow> n \<le> length s"
  unfolding matchHere_def by (rule matchAtoms_le)


lemma plain_prev: "plainRegex re \<Longrightarrow> matchHere re prev s = matchHere re None s"
  by (simp add: plainRegex_def)

lemma plain_nonempty: "plainRegex re \<Longrightarrow> matchHere re prev s = Some n \<Longrightarrow> 0 < n"
  by (cases n) (auto simp: plainRegex_def)

lemma plain_Nil: "plainRegex re \<Longrightarrow> matchHere re prev [] = None"
proof (cases "matchHere re prev []")
  case None
  then show ?thesis .
next
  case (Some n)
  assume "plainRegex re"
  from plain_nonempty [OF this Some] matchHere_le [OF Some] show ?thesis by simp
qed

lemma search_prev:
  "plainRegex re \<Longrightarrow> search re prev s = search re None s"
proof (induction s arbitrary: prev)
  case Nil
  then show ?case by (simp add: plain_Nil)
next
  case (Cons c cs)
  from Cons.prems have "matchHere re prev (c # cs) = matchHere re None (c # cs)"
    by (rule plain_prev)
  then show ?case by simp
qed

lemma search_Cons_None:
  assumes "plainRegex re" and "search re None (c # cs) = None"
  shows "search re None cs = None"
proof -
  from assms(2) have "search re (Some c) cs = None" by (auto split: option.splits)
  with search_prev [OF assms(1)] show ?thesis by metis
qed

lemma search_drop_None:
  "plainRegex re \<Longrightarrow> search re None s = None \<Longrightarrow> search re None (drop k s) = None"
proof (induction s arbitrary: k)
  case Nil
  then show ?case by simp
next
  case (Cons c cs)
  show ?case
  proof (cases k)
    case 0
    with Cons.prems show ?thesis by simp
  next
    case (Suc k')
    from search_Cons_None [OF Cons.prems] Cons.IH [OF Cons.prems(1)] Suc
    show ?thesis by simp
  qed
qed

lemma replaceFrom_none:
  "plainRegex re \<Longrightarrow> search re None s = None \<Longrightarrow> replaceFrom re repl seen s = s"
proof (induction s arbitrary: seen)
  case Nil
  then show ?case by (simp add: plain_Nil)
next
  case (Cons c cs)
  from Cons.prems have "matchHere re None (c # cs) = None" by (auto split: option.splits)
  with plain_prev [OF Cons.prems(1), of "lastChar None seen" "c # cs"]
  have "matchHere re (lastChar None seen) (c # cs) = None" by simp
  moreover have "replaceFrom re repl (seen @ [c]) cs = cs"
    using Cons.IH [OF Cons.prems(1) search_Cons_None [OF Cons.prems]] .
  ultimately show ?case by simp
qed

lemma replaceFrom_seen:
  assumes "plainRegex re" and "CHR ''$'' \<notin> set repl"
  shows "replaceFrom re repl seen s = replaceFrom re repl [] s"
proof (induction "length s" arbitrary: s seen rule: less_induct)
  case less
  show ?case
  proof (cases s)
    case Nil
    then show ?thesis by (simp add: plain_Nil [OF assms(1)])
  next
    case (Cons c cs)
    have eq: "matchHere re (lastChar None seen) (c # cs) = matchHere re (lastChar None []) (c # cs)"
      using plain_prev [OF assms(1), of "lastChar None seen" "c # cs"]
        plain_prev [OF assms(1), of "lastChar None []" "c # cs"] by simp
    show ?thesis
    proof (cases "matchHere re (lastChar None []) (c # cs)")
      case None
      with eq less [of cs "seen @ [c]"] less [of cs "[] @ [c]"] Cons show ?thesis by simp
    next
      case (Some n)
      with plain_nonempty [OF assms(1) Some] obtain m where n: "n = Suc m" by (cases n) auto
      have "length (drop m cs) < length s" using Cons by simp
      from less [OF this, of "seen @ c # take m cs"] less [OF this, of "[] @ c # take m cs"]
      show ?thesis using eq Some n Cons by (simp add: expand_plain [OF assms(2)])
    qed
  qed
qed

lemma replaceFrom_step:
  assumes "plainRegex re" and "CHR ''$'' \<notin> set repl"
  shows "search re None s = Some (i, n) \<Longrightarrow>
         replaceFrom re repl seen s = take i s @ repl @ replaceFrom re repl [] (drop (i + n) s)"
proof (induction s arbitrary: seen i)
  case Nil
  then show ?case by (simp add: plain_Nil [OF assms(1)])
next
  case (Cons c cs)
  have eq: "matchHere re (lastChar None seen) (c # cs) = matchHere re None (c # cs)"
    by (rule plain_prev [OF assms(1)])
  show ?case
  proof (cases "matchHere re None (c # cs)")
    case None
    with Cons.prems obtain i' where i': "search re (Some c) cs = Some (i', n)" "i = Suc i'"
      by auto
    from i'(1) search_prev [OF assms(1)] have "search re None cs = Some (i', n)" by metis
    from Cons.IH [OF this, of "seen @ [c]"] None eq i'(2) show ?thesis by simp
  next
    case (Some n')
    with Cons.prems have i0: "i = 0" "n = n'" by simp_all
    from plain_nonempty [OF assms(1) Some] obtain m where m: "n' = Suc m" by (cases n') auto
    from Some eq m i0 show ?thesis
      by (simp add: expand_plain [OF assms(2)]
            replaceFrom_seen [OF assms, of "seen @ c # take m cs"])
  qed
qed

lemma replaceAll_step:
  assumes "plainRegex re" and "CHR ''$'' \<notin> set repl" and "search re None s = Some (i, n)"
  shows "replaceAll re repl s = take i s @ repl @ replaceAll re repl (drop (i + n) s)"
  unfolding replaceAll_def by (rule replaceFrom_step [OF assms])

lemma replaceAll_none:
  assumes "plainRegex re" and "\<not> test re s"
  shows "replaceAll re repl s = s"
proof -
  from assms(2) have "search re None s = None"
    by (cases "search re None s") (auto simp: test_def)
  from replaceFrom_none [OF assms(1) this] show ?thesis by (simp add: replaceAll_def)
qed


lemma lastChar_take:
  "l \<noteq> [] \<Longrightarrow> length l \<le> length s \<Longrightarrow>
   lastChar prev (take (length l) s) = Some (last (take (length l) s))"
  by (cases s) (auto simp: lastChar_def)

lemma matchAtoms_Lit_prev:
  "l \<noteq> [] \<Longrightarrow> matchAtoms ci (Lit l # as) prev s = matchAtoms ci (Lit l # as) None s"
  by (simp add: lastChar_take)

lemma matchAtoms_Lit_nonempty:
  "l \<noteq> [] \<Longrightarrow> matchAtoms ci (Lit l # as) prev s \<noteq> Some 0"
  by (auto split: if_splits)

lemma plainRegex_Lit:
  "atoms re = Lit l # as \<Longrightarrow> l \<noteq> [] \<Longrightarrow> plainRegex re"
  unfolding plainRegex_def matchHere_def
  using matchAtoms_Lit_prev matchAtoms_Lit_nonempty by metis

lemma plain_fromTransactionsRegex: "plainRegex fromTransactionsRegex"
  by (rule plainRegex_Lit [of _ "''FROM''"]) (simp_all add: fromTransactionsRegex_def)

lemma plain_fromTransactionsWhere: "plainRegex fromTransactionsWhere"
  by (rule plainRegex_Lit [of _ "''FROM''"]) (simp_all add: fromTransactionsWhere_def)

lemma upper_is_word: "isUpperAZ (toUpperChar c) \<Longrightarrow> isWordChar c"
  by (metis isWordChar_def toUpperChar_not_lower)

lemma litEq_last_word:
  assumes "litEq True seg ''transactions''"
  shows "seg \<noteq> [] \<and> isWordChar (last seg)"
proof -
  from assms have u: "toUpperCase seg = ''TRANSACTIONS''"
    by (simp add: litEq_def toUpperCase_def toUpperChar_def lower_letters_def upper_letters_def)
  then have ne: "seg \<noteq> []" by (auto simp: toUpperCase_def)
  then have "toUpperChar (last seg) = last (toUpperCase seg)"
    by (simp add: toUpperCase_def last_map)
  with u have "toUpperChar (last seg) = CHR ''S''" by simp
  then have "isUpperAZ (toUpperChar (last seg))"
    by (simp add: isUpperAZ_def upper_letters_def)
  with ne show ?thesis by (simp add: upper_is_word)
qed

lemma greedy_space_first:
  assumes "\<not> greedy isSpace None s < 1"
  shows "\<not> wordAt (firstChar s)"
proof (cases s)
  case Nil
  then show ?thesis by (simp add: wordAt_def firstChar_def)
next
  case (Cons c cs)
  with assms have "isSpace c" by (auto simp: greedy_def split: if_splits)
  then have "\<not> isWordChar c" by (simp add: isWordChar_def space_not_letter)
    (auto simp: isSpace_def)
  with Cons show ?thesis by (simp add: wordAt_def firstChar_def)
qed

lemma where_pattern_is_reference:
  assumes m: "matchAtoms True [Lit l1, Rep isSpace 1 None, Lit l2, Rep isSpace 1 None, Lit l3]
                prev s = Some n"
    and w: "\<And>seg. litEq True seg l2 \<Longrightarrow> seg \<noteq> [] \<and> isWordChar (last seg)"
  shows "\<exists>n'. matchAtoms True [Lit l1, Rep isSpace 1 None, Lit l2, WordB] prev s = Some n'"
proof -
  let ?p1 = "lastChar prev (take (length l1) s)" and ?s1 = "drop (length l1) s"
  let ?k = "greedy isSpace None ?s1"
  let ?p2 = "lastChar ?p1 (take ?k ?s1)" and ?s2 = "drop ?k ?s1"
  let ?p3 = "lastChar ?p2 (take (length l2) ?s2)" and ?s3 = "drop (length l2) ?s2"
  from m have a1: "length l1 \<le> length s" "litEq True (take (length l1) s) l1"
    and m1: "matchAtoms True [Rep isSpace 1 None, Lit l2, Rep isSpace 1 None, Lit l3] ?p1 ?s1
               \<noteq> None"
    by (auto split: if_splits)
  from m1 have a2: "\<not> ?k < 1"
    and m2: "matchAtoms True [Lit l2, Rep isSpace 1 None, Lit l3] ?p2 ?s2 \<noteq> None"
    by (auto simp: Let_def split: if_splits)
  from m2 have a3: "length l2 \<le> length ?s2" "litEq True (take (length l2) ?s2) l2"
    and m3: "matchAtoms True [Rep isSpace 1 None, Lit l3] ?p3 ?s3 \<noteq> None"
    by (auto split: if_splits)
  from m3 have a4: "\<not> greedy isSpace None ?s3 < 1"
    by (auto simp: Let_def split: if_splits)
  from w [OF a3(2)] have "wordAt ?p3" by (simp add: lastChar_def wordAt_def)
  moreover have "\<not> wordAt (firstChar ?s3)" by (rule greedy_space_first [OF a4])
  ultimately have "matchAtoms True [WordB] ?p3 ?s3 = Some 0" by simp
  with a3 have "matchAtoms True [Lit l2, WordB] ?p2 ?s2 = Some (length l2 + 0)"
    by (simp del: matchAtoms.simps(4) add: matchAtoms.simps(2))
  with a2 have "matchAtoms True [Rep isSpace 1 None, Lit l2, WordB] ?p1 ?s1
      = Some (?k + (length l2 + 0))"
    by (simp only: matchAtoms.simps(3) Let_def if_False option.map)
  with a1 have "matchAtoms True [Lit l1, Rep isSpace 1 None, Lit l2, WordB] prev s
      = Some (length l1 + (?k + (length l2 + 0)))"
    by (simp only: matchAtoms.simps(2) simp_thms if_True option.map)
  then show ?thesis by blast
qed

lemma where_reference_is_reference:
  assumes "matchHere fromTransactionsWhere prev s = Some n"
  shows "\<exists>n'. matchHere fromTransactionsRegex prev s = Some n'"
  using where_pattern_is_reference [OF _ litEq_last_word, where ?l1.0 = "''FROM''"
      and ?l3.0 = "''WHERE''" and prev = prev and s = s and n = n] assms
  by (simp only: matchHere_def fromTransactionsWhere_def fromTransactionsRegex_def
        regex.simps)

lemma search_weaken:
  assumes "\<And>prev s n. matchHere re1 prev s = Some n \<Longrightarrow> \<exists>n'. matchHere re2 prev s = Some n'"
  shows "search re1 prev s \<noteq> None \<Longrightarrow> search re2 prev s \<noteq> None"
proof (induction s arbitrary: prev)
  case Nil
  then obtain n where "matchHere re1 prev [] = Some n" by auto
  from assms [OF this] show ?case by auto
next
  case (Cons c cs)
  show ?case
  proof (cases "matchHere re1 prev (c # cs)")
    case (Some n)
    from assms [OF this] show ?thesis by auto
  next
    case None
    with Cons.prems have "search re1 (Some c) cs \<noteq> None" by auto
    from Cons.IH [OF this] show ?thesis by (auto split: option.splits)
  qed
qed

lemma test_where_test_from: "test fromTransactionsWhere s \<Longrightarrow> test fromTransactionsRegex s"
  unfolding test_def by (rule search_weaken [OF where_reference_is_reference])

lemma test_drop:
  "plainRegex re \<Longrightarrow> \<not> test re s \<Longrightarrow> \<not> test re (drop k s)"
  unfolding test_def using search_drop_None by (metis not_Some_eq)

lemma dollar_free:
  "CHR ''$'' \<notin> set userId \<Longrightarrow>
   CHR ''$'' \<notin> set (whereUser userId) \<and> CHR ''$'' \<notin> set (whereUser userId @ '' AND'')"
  by (simp add: whereUser_def quote_def)

subsection \<open>The rewritten statement\<close>

lemma secureQuery_no_reference:
  "\<not> test fromTransactionsRegex query \<Longrightarrow> secureQuery userId query = query"
  by (simp add: secureQuery_def Let_def)

lemma secureQuery_append:
  assumes d: "CHR ''$'' \<notin> set userId"
    and s: "search fromTransactionsRegex None query = Some (i, n)"
    and w: "\<not> test fromTransactionsWhere query"
  shows "secureQuery userId query
       = take i query @ whereUser userId @ secureQuery userId (drop (i + n) query)"
proof -
  let ?rest = "drop (i + n) query"
  from s have t: "test fromTransactionsRegex query" by (simp add: test_def)
  have wr: "\<not> test fromTransactionsWhere ?rest"
    by (rule test_drop [OF plain_fromTransactionsWhere w])
  have rest: "secureQuery userId ?rest = replaceAll fromTransactionsRegex (whereUser userId) ?rest"
  proof (cases "test fromTransactionsRegex ?rest")
    case True
    with wr show ?thesis by (simp add: secureQuery_def Let_def)
  next
    case False
    with replaceAll_none [OF plain_fromTransactionsRegex False] show ?thesis
      by (simp add: secureQuery_no_reference)
  qed
  from t w have "secureQuery userId query = replaceAll fromTransactionsRegex (whereUser userId) query"
    by (simp add: secureQuery_def Let_def)
  also have "\<dots> = take i query @ whereUser userId
        @ replaceAll fromTransactionsRegex (whereUser userId) ?rest"
    using dollar_free [OF d] by (intro replaceAll_step [OF plain_fromTransactionsRegex _ s]) simp
  finally show ?thesis by (simp add: rest)
qed

lemma secureQuery_inject:
  assumes d: "CHR ''$'' \<notin> set userId"
    and s: "search fromTransactionsWhere None query = Some (i, n)"
  shows "secureQuery userId query
       = take i query @ whereUser userId @ '' AND''
         @ (if test fromTransactionsWhere (drop (i + n) query)
            then secureQuery userId (drop (i + n) query) else drop (i + n) query)"
proof -
  let ?rest = "drop (i + n) query"
  let ?repl = "whereUser userId @ '' AND''"
  from s have w: "test fromTransactionsWhere query" by (simp add: test_def)
  then have t: "test fromTransactionsRegex query" by (rule test_where_test_from)
  have rest: "replaceAll fromTransactionsWhere ?repl ?rest
      = (if test fromTransactionsWhere ?rest then secureQuery userId ?rest else ?rest)"
  proof (cases "test fromTransactionsWhere ?rest")
    case True
    with test_where_test_from [OF True] show ?thesis by (simp add: secureQuery_def Let_def)
  next
    case False
    with replaceAll_none [OF plain_fromTransactionsWhere False] show ?thesis by simp
  qed
  from t w have "secureQuery userId query = replaceAll fromTransactionsWhere ?repl query"
    by (simp add: secureQuery_def Let_def)
  also have "\<dots> = take i query @ ?repl @ replaceAll fromTransactionsWhere ?repl ?rest"
    using dollar_free [OF d] by (intro replaceAll_step [OF plain_fromTransactionsWhere _ s]) simp
  finally show ?thesis by (simp add: rest)
qed

text \<open>
  What the rewrite does. For a scope value without a dollar sign, an accepted candidate
  reaches the store as \<open>secureQuery userId query\<close>, which is the candidate itself when it
  has no table reference and otherwise obeys two equations. When no reference is followed
  by \<open>WHERE\<close>, the leftmost reference is replaced by
  \<open>FROM transactions WHERE user_id = '<scope>'\<close> and the text after it is rewritten the
  same way, so every reference gets the predicate. When some reference is followed by
  \<open>WHERE\<close>, the leftmost such reference, with its \<open>WHERE\<close>, is replaced by
  \<open>FROM transactions WHERE user_id = '<scope>' AND\<close>; the text after it is rewritten the
  same way if it holds another reference followed by \<open>WHERE\<close> and is left as it is
  otherwise. \<open>search\<close> gives the start and the length of the leftmost match.
\<close>

lemma scope_injection:
  assumes "CHR ''$'' \<notin> set userId"
  shows "(startsWith (toUpperCase (trim query)) ''SELECT''
        \<longrightarrow> snd (executeRawQuery neonSql userId query) = [secureQuery userId query])
     \<and> (\<not> test fromTransactionsRegex query \<longrightarrow> secureQuery userId query = query)
     \<and> (search fromTransactionsRegex None query = Some (i, n)
          \<and> \<not> test fromTransactionsWhere query
        \<longrightarrow> secureQuery userId query
            = take i query @ whereUser userId @ secureQuery userId (drop (i + n) query))
     \<and> (search fromTransactionsWhere None query = Some (j, m)
        \<longrightarrow> secureQuery userId query
            = take j query @ whereUser userId @ '' AND''
              @ (if test fromTransactionsWhere (drop (j + m) query)
                 then secureQuery userId (drop (j + m) query) else drop (j + m) query))"
  using assms secureQuery_no_reference secureQuery_append secureQuery_inject
  by (simp add: executeRawQuery_def Let_def)

lemma scope_injection_witness:
  "snd (executeRawQuery (\<lambda>q. Inr [()]) ''user_42''
          ''SELECT category, SUM(amount) FROM transactions GROUP BY category'')
     = [''SELECT category, SUM(amount) FROM transactions WHERE user_id = 'user_42' GROUP BY category'']
   \<and> secureQuery ''user_42'' ''select * from  transactions where amount < 0''
     = ''select * FROM transactions WHERE user_id = 'user_42' AND amount < 0''"
proof -
  let ?q = "''SELECT category, SUM(amount) FROM transactions GROUP BY category''"
  let ?r = "'' GROUP BY category''"
  let ?q2 = "''select * from  transactions where amount < 0''"
  have d: "CHR ''$'' \<notin> set ''user_42''" by simp
  have a: "startsWith (toUpperCase (trim ?q)) ''SELECT''" by code_simp
  have s: "search fromTransactionsRegex None ?q = Some (29, 17)" by code_simp
  have w: "\<not> test fromTransactionsWhere ?q" by code_simp
  have r: "drop (29 + 17) ?q = ?r" by code_simp
  have nr: "\<not> test fromTransactionsRegex ?r" by code_simp
  have e: "take 29 ?q @ whereUser ''user_42'' @ ?r
      = ''SELECT category, SUM(amount) FROM transactions WHERE user_id = 'user_42' GROUP BY category''"
    by code_simp
  have s2: "search fromTransactionsWhere None ?q2 = Some (9, 24)" by code_simp
  have r2: "\<not> test fromTransactionsWhere (drop (9 + 24) ?q2)" by code_simp
  have e2: "take 9 ?q2 @ whereUser ''user_42'' @ '' AND'' @ drop (9 + 24) ?q2
      = ''select * FROM transactions WHERE user_id = 'user_42' AND amount < 0''"
    by code_simp
  from scope_injection [OF d, of ?q "\<lambda>q. Inr [()]" 29 17 0 0] a s w
  have "snd (executeRawQuery (\<lambda>q. Inr [()]) ''user_42'' ?q) = [secureQuery ''user_42'' ?q]"
    and "secureQuery ''user_42'' ?q
       = take 29 ?q @ whereUser ''user_42'' @ secureQuery ''user_42'' (drop (29 + 17) ?q)"
    by blast+
  moreover from scope_injection [OF d, of ?r "\<lambda>q. Inr [()]" 0 0 0 0] nr
  have "secureQuery ''user_42'' ?r = ?r" by blast
  moreover from scope_injection [OF d, of ?q2 "\<lambda>q. Inr [()]" 0 0 9 24] s2 r2
  have "secureQuery ''user_42'' ?q2
      = take 9 ?q2 @ whereUser ''user_42'' @ '' AND'' @ drop (9 + 24) ?q2"
    by (simp del: append.simps take.simps)
  ultimately show ?thesis by (simp only: r e e2 simp_thms)
qed

text \<open>
  C1. The claim says that every reference to the transactions table is restricted to the
  scope: \<open>AND\<close>-ed into a following \<open>WHERE\<close>, appended as a \<open>WHERE\<close> clause where none
  follows; the source says of \<open>executeRawQuery\<close> that it injects the user filter for
  security. The code computes \<open>hasWhere\<close> once for the whole candidate: as soon as one
  reference is followed by \<open>WHERE\<close>, only such references are rewritten. In the statement
  that reaches the store for the candidate below, the second reference, which no \<open>WHERE\<close>
  follows, carries no predicate on \<open>user_id\<close>, so the store answers it with the rows of
  every user.
\<close>

theorem second_reference_left_unscoped:
  "snd (executeRawQuery (\<lambda>q. Inr [()]) ''user_42''
          ''SELECT * FROM transactions WHERE amount < 0 UNION SELECT * FROM transactions'')
     = [''SELECT * FROM transactions WHERE user_id = 'user_42' AND amount < 0 UNION SELECT * FROM transactions'']
   \<and> test fromTransactionsRegex '' UNION SELECT * FROM transactions''"
  by code_simp

text \<open>
  The scope value is spliced into the replacement text of \<open>replace\<close>, where a dollar
  sign is special: the predicate then names another value than the caller's.
\<close>

lemma scope_with_dollar:
  "secureQuery ''a$$b'' ''SELECT * FROM transactions''
     = ''SELECT * FROM transactions WHERE user_id = 'a$b'' @ [quote]"
  by code_simp

section \<open>Normalising twice\<close>

subsection \<open>Trimming and case\<close>

lemma rev_dropWhile_rev: "\<exists>k. rev (dropWhile P (rev t)) = take k t"
proof -
  have "dropWhile P (rev t) = drop (length (takeWhile P (rev t))) (rev t)"
    by (rule dropWhile_eq_drop)
  then have "rev (dropWhile P (rev t)) = take (length t - length (takeWhile P (rev t))) t"
    by (simp only: rev_drop rev_rev_ident length_rev)
  then show ?thesis by blast
qed

lemma trim_as_take_drop: "\<exists>a b. trim s = take a (drop b s)"
proof -
  obtain k where "rev (dropWhile isSpace (rev (dropWhile isSpace s))) = take k (dropWhile isSpace s)"
    using rev_dropWhile_rev by blast
  then have "trim s = take k (drop (length (takeWhile isSpace s)) s)"
    unfolding trim_def by (simp only: dropWhile_eq_drop [symmetric])
  then show ?thesis by blast
qed

lemma trimmed_trim: "trimmed (trim s)"
proof -
  let ?t = "dropWhile isSpace s"
  let ?w = "dropWhile isSpace (rev ?t)"
  show ?thesis
  proof (cases "?w = []")
    case True
    then show ?thesis by (simp add: trim_def trimmed_def)
  next
    case False
    then have hw: "\<not> isSpace (hd ?w)" by (rule hd_dropWhile)
    have tne: "?t \<noteq> []"
    proof
      assume e: "?t = []"
      have "?w = []" unfolding e by simp
      with False show False by simp
    qed
    then have ht: "\<not> isSpace (hd ?t)" by (rule hd_dropWhile)
    have "?w = drop (length (takeWhile isSpace (rev ?t))) (rev ?t)" by (rule dropWhile_eq_drop)
    moreover from False have "length (takeWhile isSpace (rev ?t)) < length (rev ?t)"
      by (metis calculation drop_all not_le_imp_less)
    ultimately have "last ?w = last (rev ?t)" by (metis last_drop)
    with tne have lw: "last ?w = hd ?t" by (simp add: last_rev)
    from False have "hd (rev ?w) = last ?w" "last (rev ?w) = hd ?w"
      by (simp_all add: hd_rev last_rev)
    with hw ht lw False show ?thesis by (simp add: trim_def trimmed_def)
  qed
qed

lemma trim_trimmed: "trimmed s \<Longrightarrow> trim s = s"
proof (cases "s = []")
  case True
  then show ?thesis by (simp add: trim_def)
next
  case False
  assume "trimmed s"
  with False have h: "\<not> isSpace (hd s)" "\<not> isSpace (last s)" by (simp_all add: trimmed_def)
  from False h(1) have a: "dropWhile isSpace s = s" by (cases s) auto
  from False h(2) have "dropWhile isSpace (rev s) = rev s"
    by (cases "rev s") (auto simp: last_rev [symmetric] hd_rev)
  with a show ?thesis by (simp add: trim_def)
qed

lemma trim_idem: "trim (trim s) = trim s"
  by (rule trim_trimmed [OF trimmed_trim])

lemma upper_iff: "toUpperCase s = s \<longleftrightarrow> (\<forall>c\<in>set s. toUpperChar c = c)"
  unfolding toUpperCase_def by (induction s) auto

lemma upper_toUpperCase: "toUpperCase (toUpperCase s) = toUpperCase s"
  by (simp add: toUpperCase_def toUpperChar_idem)

lemma upper_take_drop: "toUpperCase s = s \<Longrightarrow> toUpperCase (take a (drop b s)) = take a (drop b s)"
  unfolding upper_iff by (meson in_set_dropD in_set_takeD)

lemma upper_trim: "toUpperCase s = s \<Longrightarrow> toUpperCase (trim s) = trim s"
  using trim_as_take_drop [of s] upper_take_drop by metis

lemma upper_drop: "toUpperCase s = s \<Longrightarrow> toUpperCase (drop b s) = drop b s"
  unfolding upper_iff by (meson in_set_dropD)

lemma upper_take: "toUpperCase s = s \<Longrightarrow> toUpperCase (take b s) = take b s"
  unfolding upper_iff by (meson in_set_takeD)

lemma upper_append: "toUpperCase s = s \<Longrightarrow> toUpperCase t = t \<Longrightarrow> toUpperCase (s @ t) = s @ t"
  by (simp add: toUpperCase_def)

lemma singleSpaced_drop1: "singleSpaced (c # s) \<Longrightarrow> singleSpaced s"
  by (cases s) auto

lemma singleSpaced_drop: "singleSpaced s \<Longrightarrow> singleSpaced (drop n s)"
proof (induction n arbitrary: s)
  case 0
  then show ?case by simp
next
  case (Suc n)
  then show ?case by (cases s) (auto dest: singleSpaced_drop1)
qed

lemma singleSpaced_take: "singleSpaced s \<Longrightarrow> singleSpaced (take n s)"
proof (induction s arbitrary: n rule: singleSpaced.induct)
  case 1
  then show ?case by simp
next
  case (2 c)
  then show ?case by (cases n) auto
next
  case (3 c d r)
  show ?case
  proof (cases n)
    case 0
    then show ?thesis by simp
  next
    case (Suc m)
    from "3.prems" have sd: "singleSpaced (d # r)" by simp
    from "3.IH" [OF sd, of m] have ih: "singleSpaced (take m (d # r))" .
    show ?thesis
    proof (cases m)
      case 0
      with Suc "3.prems" show ?thesis by (auto split: if_splits)
    next
      case (Suc k)
      with ih \<open>n = Suc m\<close> "3.prems" show ?thesis by (auto split: if_splits)
    qed
  qed
qed

lemma singleSpaced_trim: "singleSpaced s \<Longrightarrow> singleSpaced (trim s)"
  using trim_as_take_drop [of s] singleSpaced_take singleSpaced_drop by metis

subsection \<open>Collapsing white space\<close>

lemma matchHere_whitespaceRun:
  "matchHere whitespaceRun prev s
     = (if s \<noteq> [] \<and> isSpace (hd s) then Some (length (takeWhile isSpace s)) else None)"
  by (cases s) (auto simp: matchHere_def whitespaceRun_def greedy_def Let_def)

lemma plain_whitespaceRun: "plainRegex whitespaceRun"
  unfolding plainRegex_def matchHere_whitespaceRun by (auto simp: neq_Nil_conv)

lemma space_free: "CHR ''$'' \<notin> set '' ''"
  by simp

lemma collapse_Nil: "replaceAll whitespaceRun '' '' [] = []"
  by (simp add: replaceAll_def matchHere_whitespaceRun)

lemma collapse_space:
  assumes "isSpace c"
  shows "replaceAll whitespaceRun '' '' (c # cs)
       = CHR '' '' # replaceAll whitespaceRun '' '' (dropWhile isSpace cs)"
proof -
  let ?m = "length (takeWhile isSpace cs)"
  from assms have "matchHere whitespaceRun (lastChar None []) (c # cs) = Some (Suc ?m)"
    by (simp add: matchHere_whitespaceRun)
  then have "replaceFrom whitespaceRun '' '' [] (c # cs)
      = '' '' @ replaceFrom whitespaceRun '' '' ([] @ c # take ?m cs) (drop ?m cs)"
    by (simp add: expand_plain)
  also have "replaceFrom whitespaceRun '' '' ([] @ c # take ?m cs) (drop ?m cs)
      = replaceFrom whitespaceRun '' '' [] (drop ?m cs)"
    by (rule replaceFrom_seen [OF plain_whitespaceRun space_free])
  finally show ?thesis by (simp add: replaceAll_def dropWhile_eq_drop)
qed

lemma collapse_other:
  assumes "\<not> isSpace c"
  shows "replaceAll whitespaceRun '' '' (c # cs) = c # replaceAll whitespaceRun '' '' cs"
proof -
  from assms have "matchHere whitespaceRun (lastChar None []) (c # cs) = None"
    by (simp add: matchHere_whitespaceRun)
  then have "replaceFrom whitespaceRun '' '' [] (c # cs)
      = c # replaceFrom whitespaceRun '' '' ([] @ [c]) cs"
    by simp
  also have "replaceFrom whitespaceRun '' '' ([] @ [c]) cs = replaceFrom whitespaceRun '' '' [] cs"
    by (rule replaceFrom_seen [OF plain_whitespaceRun space_free])
  finally show ?thesis by (simp add: replaceAll_def)
qed

lemma singleSpaced_Cons_other:
  "\<not> isSpace c \<Longrightarrow> singleSpaced r \<Longrightarrow> singleSpaced (c # r)"
  by (cases r) auto

lemma singleSpaced_collapse: "singleSpaced (replaceAll whitespaceRun '' '' s)"
proof (induction "length s" arbitrary: s rule: less_induct)
  case less
  show ?case
  proof (cases s)
    case Nil
    then show ?thesis by (simp add: collapse_Nil)
  next
    case (Cons c cs)
    show ?thesis
    proof (cases "isSpace c")
      case False
      have "singleSpaced (replaceAll whitespaceRun '' '' cs)" using less [of cs] Cons by simp
      with False Cons show ?thesis by (simp add: collapse_other singleSpaced_Cons_other)
    next
      case True
      let ?t = "dropWhile isSpace cs"
      have sp: "isSpace CHR '' ''" by (simp add: isSpace_def)
      have lt: "length ?t < length s" using Cons by (simp add: length_dropWhile_le le_imp_less_Suc)
      show ?thesis
      proof (cases ?t)
        case Nil
        have "replaceAll whitespaceRun '' '' (c # cs) = '' ''"
          unfolding collapse_space [OF True] Nil collapse_Nil ..
        with \<open>s = c # cs\<close> sp show ?thesis by simp
      next
        case (Cons d r)
        then have "?t \<noteq> []" by simp
        then have nd: "\<not> isSpace (hd ?t)" by (rule hd_dropWhile)
        with Cons have nd': "\<not> isSpace d" by simp
        have "singleSpaced (replaceAll whitespaceRun '' '' ?t)" by (rule less [OF lt])
        with Cons nd' have "singleSpaced (d # replaceAll whitespaceRun '' '' r)"
          by (simp add: collapse_other)
        with True \<open>s = c # cs\<close> Cons nd' sp show ?thesis
          by (simp add: collapse_space collapse_other)
      qed
    qed
  qed
qed

lemma collapse_singleSpaced:
  "singleSpaced s \<Longrightarrow> replaceAll whitespaceRun '' '' s = s"
proof (induction s rule: singleSpaced.induct)
  case 1
  then show ?case by (simp add: collapse_Nil)
next
  case (2 c)
  then show ?case
    by (cases "isSpace c") (simp_all add: collapse_space collapse_other collapse_Nil)
next
  case (3 c d r)
  then show ?case
    by (cases "isSpace c") (simp_all add: collapse_space collapse_other)
qed

lemma upper_collapse:
  "toUpperCase s = s \<Longrightarrow>
   toUpperCase (replaceAll whitespaceRun '' '' s) = replaceAll whitespaceRun '' '' s"
proof (induction "length s" arbitrary: s rule: less_induct)
  case less
  show ?case
  proof (cases s)
    case Nil
    then show ?thesis by (simp add: collapse_Nil toUpperCase_def)
  next
    case (Cons c cs)
    from less.prems Cons have uc: "toUpperChar c = c" and ucs: "toUpperCase cs = cs"
      by (simp_all add: toUpperCase_def)
    show ?thesis
    proof (cases "isSpace c")
      case False
      from less.hyps [of cs] Cons ucs
      have "toUpperCase (replaceAll whitespaceRun '' '' cs) = replaceAll whitespaceRun '' '' cs"
        by simp
      with False Cons uc show ?thesis by (simp add: collapse_other toUpperCase_def)
    next
      case True
      let ?t = "dropWhile isSpace cs"
      have lt: "length ?t < length s" using Cons by (simp add: length_dropWhile_le le_imp_less_Suc)
      have "toUpperCase ?t = ?t"
        using ucs upper_drop [of cs] by (simp add: dropWhile_eq_drop)
      from less.hyps [OF lt this]
      have "toUpperCase (replaceAll whitespaceRun '' '' ?t) = replaceAll whitespaceRun '' '' ?t" .
      moreover have "toUpperChar CHR '' '' = CHR '' ''"
        by (rule isSpace_toUpperChar) (simp add: isSpace_def)
      ultimately show ?thesis using True Cons by (simp add: collapse_space toUpperCase_def)
    qed
  qed
qed

subsection \<open>Anchored patterns and the shape of the output\<close>

lemma greedy_le: "greedy cls hi s \<le> length s"
proof -
  have "length (takeWhile cls s) \<le> length s" by (rule length_takeWhile_le)
  then show ?thesis by (cases hi) (auto simp: greedy_def Let_def)
qed

lemma matchAtoms_anchored:
  "as \<noteq> [] \<Longrightarrow> last as = End \<Longrightarrow> matchAtoms ci as prev s = Some n \<Longrightarrow> n = length s"
proof (induction as arbitrary: prev s n)
  case Nil
  then show ?case by simp
next
  case (Cons a as)
  show ?case
  proof (cases "as = []")
    case True
    with Cons.prems show ?thesis by (auto split: if_splits)
  next
    case False
    with Cons.prems have l: "last as = End" by simp
    note ih = Cons.IH [OF False l]
    show ?thesis
    proof (cases a)
      case (Lit l)
      with Cons.prems obtain m where m: "length l \<le> length s"
        "matchAtoms ci as (lastChar prev (take (length l) s)) (drop (length l) s) = Some m"
        "n = length l + m"
        by (auto split: if_splits)
      from ih [OF m(2)] m(1,3) show ?thesis by simp
    next
      case (Rep cls lo hi)
      let ?k = "greedy cls hi s"
      from Cons.prems Rep obtain m where m:
        "matchAtoms ci as (lastChar prev (take ?k s)) (drop ?k s) = Some m" "n = ?k + m"
        by (auto simp: Let_def split: if_splits)
      from ih [OF m(1)] m(2) greedy_le [of cls hi s] show ?thesis by simp
    next
      case WordB
      with Cons.prems have "matchAtoms ci as prev s = Some n" by (simp split: if_splits)
      from ih [OF this] show ?thesis .
    next
      case End
      with Cons.prems have "matchAtoms ci as prev s = Some n" by (simp split: if_splits)
      from ih [OF this] show ?thesis .
    qed
  qed
qed

lemma search_anchored:
  "anchored re \<Longrightarrow> search re prev s = Some (i, n) \<Longrightarrow> i + n = length s"
proof (induction s arbitrary: prev i)
  case Nil
  then show ?case
    by (auto simp: anchored_def matchHere_def dest: matchAtoms_anchored)
next
  case (Cons c cs)
  show ?case
  proof (cases "matchHere re prev (c # cs)")
    case None
    with Cons.prems obtain i' where "search re (Some c) cs = Some (i', n)" "i = Suc i'" by auto
    with Cons.IH [OF Cons.prems(1)] show ?thesis by simp
  next
    case (Some n')
    with Cons.prems have "i = 0" "n = n'" by simp_all
    with Some Cons.prems(1) show ?thesis
      by (auto simp: anchored_def matchHere_def dest: matchAtoms_anchored)
  qed
qed

lemma replaceFirst_anchored:
  assumes "anchored re"
  shows "\<exists>k. replaceFirst re [] s = take k s"
proof (cases "search re None s")
  case None
  then have "replaceFirst re [] s = take (length s) s" by (simp add: replaceFirst_def)
  then show ?thesis by blast
next
  case (Some p)
  obtain i n where p: "p = (i, n)" by (cases p)
  from search_anchored [OF assms] Some p have "i + n = length s" by simp
  with Some p have "replaceFirst re [] s = take i s" by (simp add: replaceFirst_def)
  then show ?thesis by blast
qed

lemma replaceFirst_none: "\<not> test re s \<Longrightarrow> replaceFirst re [] s = s"
  by (cases "search re None s") (auto simp: test_def replaceFirst_def)

lemma anchored_suffixes: "re \<in> set MERCHANT_SUFFIXES \<Longrightarrow> anchored re"
  by (auto simp: MERCHANT_SUFFIXES_def suffixRegex_def anchored_def)

lemma anchored_trailingId: "anchored trailingId"
  by (simp add: trailingId_def anchored_def)

lemma anchored_cityState: "anchored cityState"
  by (simp add: cityState_def anchored_def)

text \<open>What every output of the normaliser satisfies.\<close>

lemma upper_stripPrefix: "toUpperCase s = s \<Longrightarrow> toUpperCase (stripPrefix s p) = stripPrefix s p"
  by (simp add: stripPrefix_def upper_trim upper_drop)

lemma upper_strip_anchored:
  assumes "anchored re" and "toUpperCase s = s"
  shows "toUpperCase (trim (replaceFirst re [] s)) = trim (replaceFirst re [] s)"
proof -
  from replaceFirst_anchored [OF assms(1)] obtain k where "replaceFirst re [] s = take k s"
    by blast
  with upper_take [OF assms(2)] show ?thesis by (simp add: upper_trim)
qed

lemma singleSpaced_strip_anchored:
  assumes "anchored re" and "singleSpaced s"
  shows "singleSpaced (trim (replaceFirst re [] s))"
proof -
  from replaceFirst_anchored [OF assms(1)] obtain k where "replaceFirst re [] s = take k s"
    by blast
  with singleSpaced_take [OF assms(2)] show ?thesis by (simp add: singleSpaced_trim)
qed

lemma foldl_keeps:
  "(\<And>s x. x \<in> set xs \<Longrightarrow> P s \<Longrightarrow> P (f s x)) \<Longrightarrow> P s \<Longrightarrow> P (foldl f s xs)"
  by (induction xs arbitrary: s) auto

lemma foldl_fixed:
  "(\<And>x. x \<in> set xs \<Longrightarrow> f s x = s) \<Longrightarrow> foldl f s xs = s"
  by (induction xs) auto

lemma normalizeMerchant_shape:
  "toUpperCase (normalizeMerchant x) = normalizeMerchant x
   \<and> trimmed (normalizeMerchant x) \<and> singleSpaced (normalizeMerchant x)"
proof -
  let ?s0 = "trim (toUpperCase x)"
  let ?s1 = "foldl stripPrefix ?s0 MERCHANT_PREFIXES"
  let ?s2 = "foldl stripSuffix ?s1 MERCHANT_SUFFIXES"
  let ?s3 = "trim (replaceAll whitespaceRun '' '' ?s2)"
  let ?s4 = "trim (replaceFirst trailingId [] ?s3)"
  let ?s5 = "trim (replaceFirst cityState [] ?s4)"
  have n: "normalizeMerchant x = ?s5" by (simp add: normalizeMerchant_def Let_def)
  have u0: "toUpperCase ?s0 = ?s0" by (simp add: upper_trim upper_toUpperCase)
  have u1: "toUpperCase ?s1 = ?s1"
    by (rule foldl_keeps [where P = "\<lambda>s. toUpperCase s = s"]) (simp_all add: upper_stripPrefix u0)
  have u2: "toUpperCase ?s2 = ?s2"
    by (rule foldl_keeps [where P = "\<lambda>s. toUpperCase s = s"])
      (simp_all add: stripSuffix_def upper_strip_anchored anchored_suffixes u1)
  have u3: "toUpperCase ?s3 = ?s3" by (simp add: upper_trim upper_collapse u2)
  have u4: "toUpperCase ?s4 = ?s4" by (rule upper_strip_anchored [OF anchored_trailingId u3])
  have u5: "toUpperCase ?s5 = ?s5" by (rule upper_strip_anchored [OF anchored_cityState u4])
  have p3: "singleSpaced ?s3" by (simp add: singleSpaced_trim singleSpaced_collapse)
  have p4: "singleSpaced ?s4" by (rule singleSpaced_strip_anchored [OF anchored_trailingId p3])
  have p5: "singleSpaced ?s5" by (rule singleSpaced_strip_anchored [OF anchored_cityState p4])
  have t5: "trimmed ?s5" by (rule trimmed_trim)
  from u5 p5 t5 show ?thesis unfolding n by simp
qed

lemma normalizeMerchant_fixed:
  assumes u: "toUpperCase y = y" and t: "trimmed y" and p: "singleSpaced y"
    and a: "\<forall>p\<in>set MERCHANT_PREFIXES. \<not> startsWith y p"
    and b: "\<forall>re\<in>set MERCHANT_SUFFIXES. \<not> test re y"
    and c: "\<not> test trailingId y" and d: "\<not> test cityState y"
  shows "normalizeMerchant y = y"
proof -
  note ty = trim_trimmed [OF t]
  have s0: "trim (toUpperCase y) = y" by (simp add: u ty)
  have s1: "foldl stripPrefix y MERCHANT_PREFIXES = y"
    by (rule foldl_fixed) (simp add: stripPrefix_def a)
  have s2: "foldl stripSuffix y MERCHANT_SUFFIXES = y"
    by (rule foldl_fixed) (simp add: stripSuffix_def replaceFirst_none b ty)
  have s3: "trim (replaceAll whitespaceRun '' '' y) = y"
    by (simp add: collapse_singleSpaced [OF p] ty)
  have s4: "trim (replaceFirst trailingId [] y) = y" by (simp add: replaceFirst_none [OF c] ty)
  have s5: "trim (replaceFirst cityState [] y) = y" by (simp add: replaceFirst_none [OF d] ty)
  show ?thesis by (simp add: normalizeMerchant_def Let_def s0 s1 s2 s3 s4 s5)
qed

text \<open>
  C4, as the code has it. The prefixes and the suffix patterns are tried once each, in a
  fixed order, so a second pass can strip what the first pass uncovered. Normalising twice
  is normalising once whenever the first result is stable: it starts with none of the
  prefixes and none of the suffix patterns, nor the trailing-number pattern, nor the
  city pattern matches it.
\<close>

theorem normalize_idempotent_when_stable:
  assumes "\<forall>p\<in>set MERCHANT_PREFIXES. \<not> startsWith (normalizeMerchant x) p"
    and "\<forall>re\<in>set MERCHANT_SUFFIXES. \<not> test re (normalizeMerchant x)"
    and "\<not> test trailingId (normalizeMerchant x)"
    and "\<not> test cityState (normalizeMerchant x)"
  shows "normalizeMerchant (normalizeMerchant x) = normalizeMerchant x"
  using normalizeMerchant_shape [of x] assms by (intro normalizeMerchant_fixed) simp_all


theorem normalize_idempotent_when_stable_witness:
  "normalizeMerchant (normalizeMerchant ''SQ *JOE'S COFFEE #4521 SAN FRANCISCO CA'')
     = normalizeMerchant ''SQ *JOE'S COFFEE #4521 SAN FRANCISCO CA''
   \<and> normalizeMerchant ''SQ *JOE'S COFFEE #4521 SAN FRANCISCO CA'' = ''JOE'S COFFEE #4521 SAN''"
proof -
  let ?y = "''JOE'S COFFEE #4521 SAN''"
  have a: "\<forall>p\<in>set MERCHANT_PREFIXES. \<not> startsWith ?y p" by code_simp
  have b: "\<forall>re\<in>set MERCHANT_SUFFIXES. \<not> test re ?y" by code_simp
  have c: "\<not> test trailingId ?y" by code_simp
  have d: "\<not> test cityState ?y" by code_simp
  from normalize_idempotent_when_stable
         [of "''SQ *JOE'S COFFEE #4521 SAN FRANCISCO CA''", unfolded normalize_joes_coffee,
          OF a b c d]
  show ?thesis by (simp add: normalize_joes_coffee)
qed


text \<open>
  Idempotence fails in general: of two stacked processor prefixes one pass strips the
  first only.
\<close>

theorem normalize_not_idempotent:
  "normalizeMerchant (normalizeMerchant ''SQ *SQ *X'') \<noteq> normalizeMerchant ''SQ *SQ *X''"
  by code_simp

end
